theory Spec2Isabelle
  imports Main "HOL-Library.Word"
begin

unbundle bit_operations_syntax

section \<open>CodePlug::Element: the field accessors over a raw byte buffer\<close>

text \<open>
  An element is a view on the bytes \<open>_data[0] .. _data[_size - 1]\<close>; it is modelled by
  the list of these bytes. The accessors of \<^verbatim>\<open>codeplug.cc\<close> never consult \<open>_size\<close>:
  an access outside the view is undefined behaviour in C++, which the model reports as
  \<open>None\<close>. The arguments \<open>offset\<close>, \<open>bit\<close> and \<open>maxlen\<close> are \<open>uint\<close> in the source and
  natural numbers here (no arithmetic of the source on them can wrap around).
  The C++ expressions on \<open>int\<close> operands are evaluated on 32-bit words, and a shift by 32
  or more bits is undefined behaviour (\<open>None\<close>).
\<close>

type_synonym u8 = "8 word"
type_synonym u16 = "16 word"
type_synonym u32 = "32 word"
type_synonym Element = "u8 list"

definition getBit :: "Element \<Rightarrow> nat \<Rightarrow> nat \<Rightarrow> bool option" where
  "getBit e offset b =
     (if offset < length e \<and> b < 32
      then Some ((push_bit b (1 :: u32) AND ucast (e ! offset)) \<noteq> 0)
      else None)"

definition setBit :: "Element \<Rightarrow> nat \<Rightarrow> nat \<Rightarrow> bool \<Rightarrow> Element option" where
  "setBit e offset b v =
     (if offset < length e \<and> b < 32
      then (if v
            then Some (e[offset := ucast ((ucast (e ! offset) :: u32) OR push_bit b 1)])
            else Some (e[offset := ucast ((ucast (e ! offset) :: u32) AND NOT (push_bit b 1))]))
      else None)"

definition clearBit :: "Element \<Rightarrow> nat \<Rightarrow> nat \<Rightarrow> Element option" where
  "clearBit e offset b =
     (if offset < length e \<and> b < 32
      then Some (e[offset := ucast ((ucast (e ! offset) :: u32) AND NOT (push_bit b 1))])
      else None)"

definition getUInt2 :: "Element \<Rightarrow> nat \<Rightarrow> nat \<Rightarrow> u8 option" where
  "getUInt2 e offset b =
     (if offset < length e \<and> b < 32
      then Some (ucast (drop_bit b (ucast (e ! offset) :: u32) AND 3))
      else None)"

definition setUInt2 :: "Element \<Rightarrow> nat \<Rightarrow> nat \<Rightarrow> u8 \<Rightarrow> Element option" where
  "setUInt2 e offset b v =
     (if offset < length e \<and> b < 32
      then let e1 = e[offset := ucast ((ucast (e ! offset) :: u32) AND NOT (push_bit b 3))];
               e2 = e1[offset := ucast ((ucast (e1 ! offset) :: u32) OR push_bit b (ucast v AND 3))]
           in Some e2
      else None)"

definition getUInt3 :: "Element \<Rightarrow> nat \<Rightarrow> nat \<Rightarrow> u8 option" where
  "getUInt3 e offset b =
     (if offset < length e \<and> b < 32
      then Some (ucast (drop_bit b (ucast (e ! offset) :: u32) AND 7))
      else None)"

definition setUInt3 :: "Element \<Rightarrow> nat \<Rightarrow> nat \<Rightarrow> u8 \<Rightarrow> Element option" where
  "setUInt3 e offset b v =
     (if offset < length e \<and> b < 32
      then let e1 = e[offset := ucast ((ucast (e ! offset) :: u32) AND NOT (push_bit b 7))];
               e2 = e1[offset := ucast ((ucast (e1 ! offset) :: u32) OR push_bit b (ucast v AND 7))]
           in Some e2
      else None)"

definition getUInt4 :: "Element \<Rightarrow> nat \<Rightarrow> nat \<Rightarrow> u8 option" where
  "getUInt4 e offset b =
     (if offset < length e \<and> b < 32
      then Some (ucast (drop_bit b (ucast (e ! offset) :: u32) AND 15))
      else None)"

definition setUInt4 :: "Element \<Rightarrow> nat \<Rightarrow> nat \<Rightarrow> u8 \<Rightarrow> Element option" where
  "setUInt4 e offset b v =
     (if offset < length e \<and> b < 32
      then let e1 = e[offset := ucast ((ucast (e ! offset) :: u32) AND NOT (push_bit b 15))];
               e2 = e1[offset := ucast ((ucast (e1 ! offset) :: u32) OR push_bit b (ucast v AND 15))]
           in Some e2
      else None)"

definition getUInt5 :: "Element \<Rightarrow> nat \<Rightarrow> nat \<Rightarrow> u8 option" where
  "getUInt5 e offset b =
     (if offset < length e \<and> b < 32
      then Some (ucast (drop_bit b (ucast (e ! offset) :: u32) AND 31))
      else None)"

definition setUInt5 :: "Element \<Rightarrow> nat \<Rightarrow> nat \<Rightarrow> u8 \<Rightarrow> Element option" where
  "setUInt5 e offset b v =
     (if offset < length e \<and> b < 32
      then let e1 = e[offset := ucast ((ucast (e ! offset) :: u32) AND NOT (push_bit b 31))];
               e2 = e1[offset := ucast ((ucast (e1 ! offset) :: u32) OR push_bit b (ucast v AND 31))]
           in Some e2
      else None)"

definition getUInt6 :: "Element \<Rightarrow> nat \<Rightarrow> nat \<Rightarrow> u8 option" where
  "getUInt6 e offset b =
     (if offset < length e \<and> b < 32
      then Some (ucast (drop_bit b (ucast (e ! offset) :: u32) AND 63))
      else None)"

definition setUInt6 :: "Element \<Rightarrow> nat \<Rightarrow> nat \<Rightarrow> u8 \<Rightarrow> Element option" where
  "setUInt6 e offset b v =
     (if offset < length e \<and> b < 32
      then let e1 = e[offset := ucast ((ucast (e ! offset) :: u32) AND NOT (push_bit b 63))];
               e2 = e1[offset := ucast ((ucast (e1 ! offset) :: u32) OR push_bit b (ucast v AND 63))]
           in Some e2
      else None)"

definition getUInt8 :: "Element \<Rightarrow> nat \<Rightarrow> u8 option" where
  "getUInt8 e offset = (if offset < length e then Some (e ! offset) else None)"

definition setUInt8 :: "Element \<Rightarrow> nat \<Rightarrow> u8 \<Rightarrow> Element option" where
  "setUInt8 e offset v = (if offset < length e then Some (e[offset := v]) else None)"

subsection \<open>Host byte order and the QtEndian conversions\<close>

text \<open>
  The 16- and 32-bit accessors read and write memory through a \<open>uint16_t *\<close> or
  \<open>uint32_t *\<close>, that is in the byte order of the host, and convert with
  \<open>qFromBigEndian\<close>, \<open>qToBigEndian\<close>, \<open>qFromLittleEndian\<close> and \<open>qToLittleEndian\<close> of
  QtEndian: the identity on a host of that byte order, a byte swap on the other one.
  The host's byte order is a parameter of the model.
\<close>

datatype ByteOrder = LittleEndian | BigEndian

definition qbswap16 :: "u16 \<Rightarrow> u16" where
  "qbswap16 x = push_bit 8 (x AND 0xff) OR (drop_bit 8 x AND 0xff)"

definition qbswap32 :: "u32 \<Rightarrow> u32" where
  "qbswap32 x = push_bit 24 (x AND 0xff) OR push_bit 16 (drop_bit 8 x AND 0xff)
                 OR push_bit 8 (drop_bit 16 x AND 0xff) OR (drop_bit 24 x AND 0xff)"

definition qFromBigEndian16 :: "ByteOrder \<Rightarrow> u16 \<Rightarrow> u16" where
  "qFromBigEndian16 host x = (case host of BigEndian \<Rightarrow> x | LittleEndian \<Rightarrow> qbswap16 x)"

definition qToBigEndian16 :: "ByteOrder \<Rightarrow> u16 \<Rightarrow> u16" where
  "qToBigEndian16 host x = (case host of BigEndian \<Rightarrow> x | LittleEndian \<Rightarrow> qbswap16 x)"

definition qFromLittleEndian16 :: "ByteOrder \<Rightarrow> u16 \<Rightarrow> u16" where
  "qFromLittleEndian16 host x = (case host of LittleEndian \<Rightarrow> x | BigEndian \<Rightarrow> qbswap16 x)"

definition qToLittleEndian16 :: "ByteOrder \<Rightarrow> u16 \<Rightarrow> u16" where
  "qToLittleEndian16 host x = (case host of LittleEndian \<Rightarrow> x | BigEndian \<Rightarrow> qbswap16 x)"

definition qFromBigEndian32 :: "ByteOrder \<Rightarrow> u32 \<Rightarrow> u32" where
  "qFromBigEndian32 host x = (case host of BigEndian \<Rightarrow> x | LittleEndian \<Rightarrow> qbswap32 x)"

definition qToBigEndian32 :: "ByteOrder \<Rightarrow> u32 \<Rightarrow> u32" where
  "qToBigEndian32 host x = (case host of BigEndian \<Rightarrow> x | LittleEndian \<Rightarrow> qbswap32 x)"

definition qFromLittleEndian32 :: "ByteOrder \<Rightarrow> u32 \<Rightarrow> u32" where
  "qFromLittleEndian32 host x = (case host of LittleEndian \<Rightarrow> x | BigEndian \<Rightarrow> qbswap32 x)"

definition qToLittleEndian32 :: "ByteOrder \<Rightarrow> u32 \<Rightarrow> u32" where
  "qToLittleEndian32 host x = (case host of LittleEndian \<Rightarrow> x | BigEndian \<Rightarrow> qbswap32 x)"

text \<open>Reading and writing \<open>*(uint16_t *)(_data+offset)\<close> and \<open>*(uint32_t *)(_data+offset)\<close>.\<close>

definition load16 :: "ByteOrder \<Rightarrow> Element \<Rightarrow> nat \<Rightarrow> u16 option" where
  "load16 host e offset =
     (if offset + 2 \<le> length e
      then Some (case host of
             LittleEndian \<Rightarrow> ucast (e ! offset) OR push_bit 8 (ucast (e ! (offset + 1)))
           | BigEndian \<Rightarrow> ucast (e ! (offset + 1)) OR push_bit 8 (ucast (e ! offset)))
      else None)"

definition store16 :: "ByteOrder \<Rightarrow> Element \<Rightarrow> nat \<Rightarrow> u16 \<Rightarrow> Element option" where
  "store16 host e offset w =
     (if offset + 2 \<le> length e
      then Some (case host of
             LittleEndian \<Rightarrow> e[offset := ucast w, offset + 1 := ucast (drop_bit 8 w)]
           | BigEndian \<Rightarrow> e[offset := ucast (drop_bit 8 w), offset + 1 := ucast w])
      else None)"

definition load32 :: "ByteOrder \<Rightarrow> Element \<Rightarrow> nat \<Rightarrow> u32 option" where
  "load32 host e offset =
     (if offset + 4 \<le> length e
      then Some (case host of
             LittleEndian \<Rightarrow>
               ucast (e ! offset) OR push_bit 8 (ucast (e ! (offset + 1)))
                 OR push_bit 16 (ucast (e ! (offset + 2))) OR push_bit 24 (ucast (e ! (offset + 3)))
           | BigEndian \<Rightarrow>
               ucast (e ! (offset + 3)) OR push_bit 8 (ucast (e ! (offset + 2)))
                 OR push_bit 16 (ucast (e ! (offset + 1))) OR push_bit 24 (ucast (e ! offset)))
      else None)"

definition store32 :: "ByteOrder \<Rightarrow> Element \<Rightarrow> nat \<Rightarrow> u32 \<Rightarrow> Element option" where
  "store32 host e offset w =
     (if offset + 4 \<le> length e
      then Some (case host of
             LittleEndian \<Rightarrow>
               e[offset := ucast w, offset + 1 := ucast (drop_bit 8 w),
                 offset + 2 := ucast (drop_bit 16 w), offset + 3 := ucast (drop_bit 24 w)]
           | BigEndian \<Rightarrow>
               e[offset := ucast (drop_bit 24 w), offset + 1 := ucast (drop_bit 16 w),
                 offset + 2 := ucast (drop_bit 8 w), offset + 3 := ucast w])
      else None)"

subsection \<open>16-, 24- and 32-bit integers\<close>

definition getUInt16_be :: "ByteOrder \<Rightarrow> Element \<Rightarrow> nat \<Rightarrow> u16 option" where
  "getUInt16_be host e offset = map_option (qFromBigEndian16 host) (load16 host e offset)"

definition getUInt16_le :: "ByteOrder \<Rightarrow> Element \<Rightarrow> nat \<Rightarrow> u16 option" where
  "getUInt16_le host e offset = map_option (qFromLittleEndian16 host) (load16 host e offset)"

definition setUInt16_be :: "ByteOrder \<Rightarrow> Element \<Rightarrow> nat \<Rightarrow> u16 \<Rightarrow> Element option" where
  "setUInt16_be host e offset v = store16 host e offset (qToBigEndian16 host v)"

definition setUInt16_le :: "ByteOrder \<Rightarrow> Element \<Rightarrow> nat \<Rightarrow> u16 \<Rightarrow> Element option" where
  "setUInt16_le host e offset v = store16 host e offset (qToLittleEndian16 host v)"

definition getUInt24_be :: "Element \<Rightarrow> nat \<Rightarrow> u32 option" where
  "getUInt24_be e offset =
     (if offset + 3 \<le> length e
      then Some (ucast (e ! (offset + 2)) + push_bit 8 (ucast (e ! (offset + 1)))
                 + push_bit 16 (ucast (e ! offset)))
      else None)"

definition getUInt24_le :: "Element \<Rightarrow> nat \<Rightarrow> u32 option" where
  "getUInt24_le e offset =
     (if offset + 3 \<le> length e
      then Some (ucast (e ! offset) + push_bit 8 (ucast (e ! (offset + 1)))
                 + push_bit 16 (ucast (e ! (offset + 2))))
      else None)"

definition setUInt24_be :: "Element \<Rightarrow> nat \<Rightarrow> u32 \<Rightarrow> Element option" where
  "setUInt24_be e offset v =
     (if offset + 3 \<le> length e
      then Some (e[offset := ucast (drop_bit 16 v AND 0xff),
                   offset + 1 := ucast (drop_bit 8 v AND 0xff),
                   offset + 2 := ucast (drop_bit 0 v AND 0xff)])
      else None)"

definition setUInt24_le :: "Element \<Rightarrow> nat \<Rightarrow> u32 \<Rightarrow> Element option" where
  "setUInt24_le e offset v =
     (if offset + 3 \<le> length e
      then Some (e[offset := ucast (drop_bit 0 v AND 0xff),
                   offset + 1 := ucast (drop_bit 8 v AND 0xff),
                   offset + 2 := ucast (drop_bit 16 v AND 0xff)])
      else None)"

definition getUInt32_be :: "ByteOrder \<Rightarrow> Element \<Rightarrow> nat \<Rightarrow> u32 option" where
  "getUInt32_be host e offset = map_option (qFromBigEndian32 host) (load32 host e offset)"

definition getUInt32_le :: "ByteOrder \<Rightarrow> Element \<Rightarrow> nat \<Rightarrow> u32 option" where
  "getUInt32_le host e offset = map_option (qFromLittleEndian32 host) (load32 host e offset)"

definition setUInt32_be :: "ByteOrder \<Rightarrow> Element \<Rightarrow> nat \<Rightarrow> u32 \<Rightarrow> Element option" where
  "setUInt32_be host e offset v = store32 host e offset (qToBigEndian32 host v)"

definition setUInt32_le :: "ByteOrder \<Rightarrow> Element \<Rightarrow> nat \<Rightarrow> u32 \<Rightarrow> Element option" where
  "setUInt32_le host e offset v = store32 host e offset (qToLittleEndian32 host v)"

subsection \<open>Binary-coded decimals\<close>

text \<open>
  The digits are computed on \<open>int\<close> (BCD2) or \<open>uint32_t\<close> operands, which never become
  negative or overflow here; the results are converted to the declared return and
  argument types (\<open>ucast\<close>).
\<close>

definition getBCD2 :: "Element \<Rightarrow> nat \<Rightarrow> u8 option" where
  "getBCD2 e offset =
     (case getUInt8 e offset of
        None \<Rightarrow> None
      | Some val \<Rightarrow>
          Some (ucast (((ucast val :: u32) AND 0xf) + (drop_bit 4 (ucast val :: u32) AND 0xf) * 10)))"

definition setBCD2 :: "Element \<Rightarrow> nat \<Rightarrow> u8 \<Rightarrow> Element option" where
  "setBCD2 e offset val =
     (let a = (ucast (((ucast val :: u32) div 10) mod 10) :: u8);
          b = (ucast (((ucast val :: u32) div 1) mod 10) :: u8)
      in setUInt8 e offset (ucast (push_bit 4 (ucast a :: u32) + ucast b)))"

text \<open>
  The four- and eight-digit accessors come in a \<open>_be\<close> and a \<open>_le\<close> variant with the same
  digit arithmetic, written out twice in the source; it is shared here as \<open>unpackBCD4\<close>,
  \<open>packBCD4\<close>, \<open>unpackBCD8\<close> and \<open>packBCD8\<close>.
\<close>

definition unpackBCD4 :: "u32 \<Rightarrow> u32" where
  "unpackBCD4 val = (val AND 0xf) + (drop_bit 4 val AND 0xf) * 10 + (drop_bit 8 val AND 0xf) * 100
                      + (drop_bit 12 val AND 0xf) * 1000"

definition packBCD4 :: "u16 \<Rightarrow> u32" where
  "packBCD4 val =
     (let a = ((ucast val :: u32) div 1000) mod 10;
          b = ((ucast val :: u32) div 100) mod 10;
          c = ((ucast val :: u32) div 10) mod 10;
          d = ((ucast val :: u32) div 1) mod 10
      in push_bit 12 a + push_bit 8 b + push_bit 4 c + d)"

definition getBCD4_be :: "ByteOrder \<Rightarrow> Element \<Rightarrow> nat \<Rightarrow> u16 option" where
  "getBCD4_be host e offset =
     (case getUInt16_be host e offset of
        None \<Rightarrow> None
      | Some v \<Rightarrow> Some (ucast (unpackBCD4 (ucast v))))"

definition setBCD4_be :: "ByteOrder \<Rightarrow> Element \<Rightarrow> nat \<Rightarrow> u16 \<Rightarrow> Element option" where
  "setBCD4_be host e offset val = setUInt16_be host e offset (ucast (packBCD4 val))"

definition getBCD4_le :: "ByteOrder \<Rightarrow> Element \<Rightarrow> nat \<Rightarrow> u16 option" where
  "getBCD4_le host e offset =
     (case getUInt16_le host e offset of
        None \<Rightarrow> None
      | Some v \<Rightarrow> Some (ucast (unpackBCD4 (ucast v))))"

definition setBCD4_le :: "ByteOrder \<Rightarrow> Element \<Rightarrow> nat \<Rightarrow> u16 \<Rightarrow> Element option" where
  "setBCD4_le host e offset val = setUInt16_le host e offset (ucast (packBCD4 val))"

definition unpackBCD8 :: "u32 \<Rightarrow> u32" where
  "unpackBCD8 val = (val AND 0xf) + (drop_bit 4 val AND 0xf) * 10 + (drop_bit 8 val AND 0xf) * 100
                      + (drop_bit 12 val AND 0xf) * 1000 + (drop_bit 16 val AND 0xf) * 10000
                      + (drop_bit 20 val AND 0xf) * 100000 + (drop_bit 24 val AND 0xf) * 1000000
                      + (drop_bit 28 val AND 0xf) * 10000000"

definition packBCD8 :: "u32 \<Rightarrow> u32" where
  "packBCD8 val =
     (let a = (val div 10000000) mod 10;
          b = (val div 1000000) mod 10;
          c = (val div 100000) mod 10;
          d = (val div 10000) mod 10;
          e = (val div 1000) mod 10;
          f = (val div 100) mod 10;
          g = (val div 10) mod 10;
          h = (val div 1) mod 10
      in push_bit 28 a + push_bit 24 b + push_bit 20 c + push_bit 16 d
           + push_bit 12 e + push_bit 8 f + push_bit 4 g + h)"

definition getBCD8_be :: "ByteOrder \<Rightarrow> Element \<Rightarrow> nat \<Rightarrow> u32 option" where
  "getBCD8_be host e offset = map_option unpackBCD8 (getUInt32_be host e offset)"

definition setBCD8_be :: "ByteOrder \<Rightarrow> Element \<Rightarrow> nat \<Rightarrow> u32 \<Rightarrow> Element option" where
  "setBCD8_be host e offset val = setUInt32_be host e offset (packBCD8 val)"

definition getBCD8_le :: "ByteOrder \<Rightarrow> Element \<Rightarrow> nat \<Rightarrow> u32 option" where
  "getBCD8_le host e offset = map_option unpackBCD8 (getUInt32_le host e offset)"

definition setBCD8_le :: "ByteOrder \<Rightarrow> Element \<Rightarrow> nat \<Rightarrow> u32 \<Rightarrow> Element option" where
  "setBCD8_le host e offset val = setUInt32_le host e offset (packBCD8 val)"

subsection \<open>Fixed-length strings\<close>

text \<open>
  A \<open>QString\<close> is a sequence of \<open>QChar\<close>s, which are 16-bit code units.
  \<open>QChar::fromLatin1\<close> widens a byte; \<open>QChar::toLatin1\<close> gives the byte of a code unit up to
  \<open>0xff\<close> and 0 for any other one.
\<close>

type_synonym QChar = u16
type_synonym QString = "QChar list"

definition fromLatin1 :: "u8 \<Rightarrow> QChar" where
  "fromLatin1 c = ucast c"

definition toLatin1 :: "QChar \<Rightarrow> u8" where
  "toLatin1 c = (if c > 0xff then 0 else ucast c)"

function readASCII_loop ::
  "Element \<Rightarrow> nat \<Rightarrow> nat \<Rightarrow> u8 \<Rightarrow> nat \<Rightarrow> QString \<Rightarrow> QString option" where
  "readASCII_loop e offset maxlen eos i txt =
     (if i < maxlen
      then (if offset + i < length e
            then (if e ! (offset + i) \<noteq> 0 \<and> eos \<noteq> e ! (offset + i)
                  then readASCII_loop e offset maxlen eos (i + 1)
                         (txt @ [fromLatin1 (e ! (offset + i))])
                  else Some txt)
            else None)
      else Some txt)"
  by pat_completeness auto
termination
  by (relation "measure (\<lambda>(e, offset, maxlen, eos, i, txt). maxlen - i)") auto

declare readASCII_loop.simps [simp del]

definition readASCII :: "Element \<Rightarrow> nat \<Rightarrow> nat \<Rightarrow> u8 \<Rightarrow> QString option" where
  "readASCII e offset maxlen eos = readASCII_loop e offset maxlen eos 0 []"

function writeASCII_loop ::
  "Element \<Rightarrow> nat \<Rightarrow> QString \<Rightarrow> nat \<Rightarrow> u8 \<Rightarrow> nat \<Rightarrow> Element option" where
  "writeASCII_loop e offset txt maxlen eos i =
     (if i < maxlen
      then (if offset + i < length e
            then writeASCII_loop
                   (e[offset + i := (if i < length txt then toLatin1 (txt ! i) else eos)])
                   offset txt maxlen eos (i + 1)
            else None)
      else Some e)"
  by pat_completeness auto
termination
  by (relation "measure (\<lambda>(e, offset, txt, maxlen, eos, i). maxlen - i)") auto

declare writeASCII_loop.simps [simp del]

definition writeASCII :: "Element \<Rightarrow> nat \<Rightarrow> QString \<Rightarrow> nat \<Rightarrow> u8 \<Rightarrow> Element option" where
  "writeASCII e offset txt maxlen eos = writeASCII_loop e offset txt maxlen eos 0"

text \<open>
  The Unicode accessors index a \<open>uint16_t *\<close> at \<open>_data+offset\<close>: code unit \<open>i\<close> is the
  host-order 16-bit value at the byte offset \<open>offset + 2 * i\<close>.
\<close>

function readUnicode_loop ::
  "ByteOrder \<Rightarrow> Element \<Rightarrow> nat \<Rightarrow> nat \<Rightarrow> u16 \<Rightarrow> nat \<Rightarrow> QString \<Rightarrow> QString option" where
  "readUnicode_loop host e offset maxlen eos i txt =
     (if i < maxlen
      then (case load16 host e (offset + 2 * i) of
              None \<Rightarrow> None
            | Some c \<Rightarrow>
                if eos \<noteq> c
                then readUnicode_loop host e offset maxlen eos (i + 1) (txt @ [c])
                else Some txt)
      else Some txt)"
  by pat_completeness auto
termination
  by (relation "measure (\<lambda>(host, e, offset, maxlen, eos, i, txt). maxlen - i)") auto

declare readUnicode_loop.simps [simp del]

definition readUnicode :: "ByteOrder \<Rightarrow> Element \<Rightarrow> nat \<Rightarrow> nat \<Rightarrow> u16 \<Rightarrow> QString option" where
  "readUnicode host e offset maxlen eos = readUnicode_loop host e offset maxlen eos 0 []"

function writeUnicode_loop ::
  "ByteOrder \<Rightarrow> Element \<Rightarrow> nat \<Rightarrow> QString \<Rightarrow> nat \<Rightarrow> u16 \<Rightarrow> nat \<Rightarrow> Element option" where
  "writeUnicode_loop host e offset txt maxlen eos i =
     (if i < maxlen
      then (case store16 host e (offset + 2 * i) (if i < length txt then txt ! i else eos) of
              None \<Rightarrow> None
            | Some e' \<Rightarrow> writeUnicode_loop host e' offset txt maxlen eos (i + 1))
      else Some e)"
  by pat_completeness auto
termination
  by (relation "measure (\<lambda>(host, e, offset, txt, maxlen, eos, i). maxlen - i)") auto

declare writeUnicode_loop.simps [simp del]

definition writeUnicode ::
  "ByteOrder \<Rightarrow> Element \<Rightarrow> nat \<Rightarrow> QString \<Rightarrow> nat \<Rightarrow> u16 \<Rightarrow> Element option" where
  "writeUnicode host e offset txt maxlen eos = writeUnicode_loop host e offset txt maxlen eos 0"

section \<open>CodePlug::Context: the tables of indexed objects\<close>

text \<open>
  A \<open>QMetaObject\<close> gives the name of a class and the meta object of its super class, if
  any. A \<open>ConfigObject *\<close> is modelled by a handle holding the address of the object, which
  is its identity, and the meta object \<open>obj->metaObject()\<close> of its dynamic type; the null
  pointer is \<open>None\<close> of \<open>ConfigObject option\<close>. Indices are \<open>uint\<close> values, 32-bit words.
\<close>

datatype QMetaObject = QMetaObject (className: string) (superClass: "QMetaObject option")

datatype ConfigObject = ConfigObject (address: nat) (metaObject: QMetaObject)

text \<open>The \<open>QHash\<close> operations used by the context, on maps.\<close>

definition QHash_contains :: "('k \<rightharpoonup> 'v) \<Rightarrow> 'k \<Rightarrow> bool" where
  "QHash_contains h k = (h k \<noteq> None)"

definition QHash_value :: "('k \<rightharpoonup> 'v) \<Rightarrow> 'k \<Rightarrow> 'v \<Rightarrow> 'v" where
  "QHash_value h k d = (case h k of None \<Rightarrow> d | Some v \<Rightarrow> v)"

definition QHash_insert :: "('k \<rightharpoonup> 'v) \<Rightarrow> 'k \<Rightarrow> 'v \<Rightarrow> ('k \<rightharpoonup> 'v)" where
  "QHash_insert h k v = h(k \<mapsto> v)"

record Table =
  objects :: "u32 \<rightharpoonup> ConfigObject"
  indices :: "ConfigObject \<rightharpoonup> u32"

record Context =
  tables :: "string \<rightharpoonup> Table"

fun hasTable :: "Context \<Rightarrow> QMetaObject \<Rightarrow> bool" where
  "hasTable ctx (QMetaObject name super) =
     (if QHash_contains (tables ctx) name then True
      else (case super of Some s \<Rightarrow> hasTable ctx s | None \<Rightarrow> False))"

text \<open>
  \<open>getTable\<close> returns a reference to an entry of \<open>_tables\<close>: the model returns the key of
  the entry together with the table stored there. Following a null super class is
  undefined behaviour (\<open>None\<close>).
\<close>

fun getTable :: "Context \<Rightarrow> QMetaObject \<Rightarrow> (string \<times> Table) option" where
  "getTable ctx (QMetaObject name super) =
     (if QHash_contains (tables ctx) name then Some (name, the (tables ctx name))
      else (case super of Some s \<Rightarrow> getTable ctx s | None \<Rightarrow> None))"

definition addTable :: "Context \<Rightarrow> QMetaObject \<Rightarrow> bool \<times> Context" where
  "addTable ctx m =
     (if hasTable ctx m then (False, ctx)
      else (True, ctx\<lparr>tables := QHash_insert (tables ctx) (className m)
                                  \<lparr>objects = Map.empty, indices = Map.empty\<rparr>\<rparr>))"

text \<open>
  \<open>obj\<close> returns \<open>objects.value(idx, nullptr)\<close>: the stored pointer, or the null pointer for
  an index that is not a key of the map.
\<close>

definition Context_obj :: "Context \<Rightarrow> QMetaObject \<Rightarrow> u32 \<Rightarrow> ConfigObject option option" where
  "Context_obj ctx elementType idx =
     (if \<not> hasTable ctx elementType then Some None
      else (case getTable ctx elementType of
              None \<Rightarrow> None
            | Some (k, t) \<Rightarrow>
                Some (case objects t idx of None \<Rightarrow> None | Some ob \<Rightarrow> Some ob)))"

text \<open>
  \<open>index\<close> returns an \<open>int\<close>: the stored \<open>uint\<close> index, or the default \<open>-1\<close>, is converted to
  a signed 32-bit value.
\<close>

definition Context_index :: "Context \<Rightarrow> ConfigObject \<Rightarrow> int option" where
  "Context_index ctx ob =
     (if \<not> hasTable ctx (metaObject ob) then Some (- 1)
      else (case getTable ctx (metaObject ob) of
              None \<Rightarrow> None
            | Some (k, t) \<Rightarrow> Some (sint (QHash_value (indices t) ob (- 1)))))"

text \<open>
  \<open>add\<close> calls \<open>getTable\<close> four times; the keys of \<open>_tables\<close> do not change in between, so
  every call resolves the same entry, which the model resolves once. The result is the
  returned flag and the context after the call.
\<close>

definition Context_add :: "Context \<Rightarrow> ConfigObject \<Rightarrow> u32 \<Rightarrow> (bool \<times> Context) option" where
  "Context_add ctx ob idx =
     (if \<not> hasTable ctx (metaObject ob) then Some (False, ctx)
      else (case getTable ctx (metaObject ob) of
              None \<Rightarrow> None
            | Some (k, t) \<Rightarrow>
                if QHash_contains (indices t) ob then Some (False, ctx)
                else if QHash_contains (objects t) idx then Some (False, ctx)
                else Some (True,
                  ctx\<lparr>tables := (tables ctx)(k \<mapsto>
                    t\<lparr>objects := QHash_insert (objects t) idx ob,
                      indices := QHash_insert (indices t) ob idx\<rparr>)\<rparr>)))"

text \<open>
  The constructor registers the classes of the common elements. Their declarations
  (and so their super classes) are not part of the sources at hand: the static meta
  objects are a parameter of the model.
\<close>

datatype StaticClass =
  RadioID | DigitalContact | DTMFContact | RXGroupList | Channel | Zone | ScanList
  | GPSSystem | APRSSystem | RoamingZone

definition Context_init :: "(StaticClass \<Rightarrow> QMetaObject) \<Rightarrow> Context" where
  "Context_init staticMetaObject =
     foldl (\<lambda>ctx c. snd (addTable ctx (staticMetaObject c))) \<lparr>tables = Map.empty\<rparr>
       [RadioID, DigitalContact, DTMFContact, RXGroupList, Channel, Zone, ScanList,
        GPSSystem, APRSSystem, RoamingZone]"

section \<open>Vocabulary of the properties\<close>

text \<open>
  \<open>setUIntN n\<close> and \<open>getUIntN n\<close> name the accessors of the \<open>n\<close>-bit fields, for \<open>n\<close> from 2
  to 6. \<open>unchanged_outside e e' offset b n\<close>: the buffers \<open>e\<close> and \<open>e'\<close> have the same size and
  agree on every bit but the \<open>n\<close> bits from bit \<open>b\<close> of the byte at \<open>offset\<close>.
\<close>

definition setUIntN :: "nat \<Rightarrow> Element \<Rightarrow> nat \<Rightarrow> nat \<Rightarrow> u8 \<Rightarrow> Element option" where
  "setUIntN n = (if n = 2 then setUInt2 else if n = 3 then setUInt3 else if n = 4 then setUInt4
                 else if n = 5 then setUInt5 else setUInt6)"

definition getUIntN :: "nat \<Rightarrow> Element \<Rightarrow> nat \<Rightarrow> nat \<Rightarrow> u8 option" where
  "getUIntN n = (if n = 2 then getUInt2 else if n = 3 then getUInt3 else if n = 4 then getUInt4
                 else if n = 5 then getUInt5 else getUInt6)"

definition unchanged_outside :: "Element \<Rightarrow> Element \<Rightarrow> nat \<Rightarrow> nat \<Rightarrow> nat \<Rightarrow> bool" where
  "unchanged_outside e e' offset b n =
     (length e' = length e \<and>
      (\<forall>j<length e. \<forall>k<8. (j \<noteq> offset \<or> k < b \<or> b + n \<le> k) \<longrightarrow> bit (e' ! j) k = bit (e ! j) k))"

text \<open>The byte left by the two statements of \<open>setUIntN\<close>, for the mask of \<open>n\<close> bits.\<close>

definition rmw :: "nat \<Rightarrow> u8 \<Rightarrow> nat \<Rightarrow> u8 \<Rightarrow> u8" where
  "rmw n x b v =
     ucast ((ucast (ucast ((ucast x :: u32) AND NOT (push_bit b (mask n))) :: u8) :: u32)
            OR push_bit b (ucast v AND mask n))"

text \<open>
  \<open>byte0 x\<close> to \<open>byte3 x\<close> are the bytes of the 32-bit value \<open>x\<close>, \<open>byte0\<close> the least
  significant one;
  \<open>byte_reversed x\<close> has the bytes of \<open>x\<close> in the opposite order; \<open>field_bytes e offset n\<close>
  are the \<open>n\<close> bytes of the buffer from \<open>offset\<close> on, in memory order.
\<close>

definition byte0 :: "u32 \<Rightarrow> u8" where
  "byte0 x = ucast x"

definition byte1 :: "u32 \<Rightarrow> u8" where
  "byte1 x = ucast (drop_bit 8 x)"

definition byte2 :: "u32 \<Rightarrow> u8" where
  "byte2 x = ucast (drop_bit 16 x)"

definition byte3 :: "u32 \<Rightarrow> u8" where
  "byte3 x = ucast (drop_bit 24 x)"

definition byte_reversed :: "u32 \<Rightarrow> u32" where
  "byte_reversed x = ucast (byte3 x) OR push_bit 8 (ucast (byte2 x))
     OR push_bit 16 (ucast (byte1 x)) OR push_bit 24 (ucast (byte0 x))"

definition field_bytes :: "Element \<Rightarrow> nat \<Rightarrow> nat \<Rightarrow> u8 list" where
  "field_bytes e offset n = take n (drop offset e)"

text \<open>
  \<open>digit n k\<close> is the decimal digit \<open>k\<close> of \<open>n\<close>, digit 0 the least significant;
  \<open>horner base ds\<close> is the value of the digits \<open>ds\<close>, least significant first, in the given
  base.
\<close>

definition digit :: "nat \<Rightarrow> nat \<Rightarrow> nat" where
  "digit n k = (n div 10 ^ k) mod 10"

fun horner :: "nat \<Rightarrow> nat list \<Rightarrow> nat" where
  "horner base [] = 0"
| "horner base (d # ds) = d + base * horner base ds"

text \<open>
  \<open>writes_within e offset n r\<close>: the write with result \<open>r\<close> on the buffer \<open>e\<close> is defined
  when the \<open>n\<close> bytes from \<open>offset\<close> on lie inside the buffer, and where it is defined it
  leaves the size of the buffer and every byte outside these \<open>n\<close> bytes as they were.
\<close>

definition writes_within :: "Element \<Rightarrow> nat \<Rightarrow> nat \<Rightarrow> Element option \<Rightarrow> bool" where
  "writes_within e offset n r =
     ((offset + n \<le> length e \<longrightarrow> r \<noteq> None) \<and>
      (\<forall>e'. r = Some e' \<longrightarrow>
         length e' = length e \<and>
         (\<forall>j<length e. j < offset \<or> offset + n \<le> j \<longrightarrow> e' ! j = e ! j)))"

text \<open>
  \<open>hierarchy m\<close> lists the class \<open>m\<close> and its ancestors, the most derived class first.
  \<open>registered ctx m\<close>: the context holds a table under the name of the class \<open>m\<close> itself.
  \<open>resolves_to ctx ty cat\<close>: walking up from \<open>ty\<close>, the class \<open>cat\<close> is the first registered
  one.
\<close>

fun hierarchy :: "QMetaObject \<Rightarrow> QMetaObject list" where
  "hierarchy (QMetaObject name super) =
     QMetaObject name super # (case super of None \<Rightarrow> [] | Some s \<Rightarrow> hierarchy s)"

definition registered :: "Context \<Rightarrow> QMetaObject \<Rightarrow> bool" where
  "registered ctx m = (tables ctx (className m) \<noteq> None)"

definition resolves_to :: "Context \<Rightarrow> QMetaObject \<Rightarrow> QMetaObject \<Rightarrow> bool" where
  "resolves_to ctx ty cat =
     (\<exists>pre. hierarchy ty = pre @ hierarchy cat \<and> (\<forall>m \<in> set pre. \<not> registered ctx m) \<and>
            registered ctx cat)"

text \<open>
  The invariant of a slot table, and the contexts that a session can reach: the freshly
  constructed one, and those after \<open>addTable\<close> or \<open>add\<close>.
\<close>

definition mutual_inverses :: "Table \<Rightarrow> bool" where
  "mutual_inverses t = (\<forall>i ob. objects t i = Some ob \<longleftrightarrow> indices t ob = Some i)"

definition at_most_once :: "Table \<Rightarrow> bool" where
  "at_most_once t =
     ((\<forall>i j ob. objects t i = Some ob \<and> objects t j = Some ob \<longrightarrow> i = j) \<and>
      (\<forall>a b i. indices t a = Some i \<and> indices t b = Some i \<longrightarrow> a = b))"

inductive reachable :: "(StaticClass \<Rightarrow> QMetaObject) \<Rightarrow> Context \<Rightarrow> bool"
  for staticMetaObject :: "StaticClass \<Rightarrow> QMetaObject" where
  fresh: "reachable staticMetaObject (Context_init staticMetaObject)"
| after_addTable:
    "reachable staticMetaObject ctx \<Longrightarrow> addTable ctx m = (r, ctx') \<Longrightarrow>
     reachable staticMetaObject ctx'"
| after_add:
    "reachable staticMetaObject ctx \<Longrightarrow> Context_add ctx ob idx = Some (r, ctx') \<Longrightarrow>
     reachable staticMetaObject ctx'"

text \<open>
  Modelled from the spec: the class declarations of the configuration objects are not
  among the sources, and the properties below hold for any class hierarchy. The
  examples use this one: the digital and the analog channel derive from the channel
  category, as the spec says, and every pre-seeded category derives from
  \<open>ConfigObject\<close>, which derives from \<open>QObject\<close>.
\<close>

definition QObject_meta :: QMetaObject where
  "QObject_meta = QMetaObject ''QObject'' None"

definition ConfigObject_meta :: QMetaObject where
  "ConfigObject_meta = QMetaObject ''ConfigObject'' (Some QObject_meta)"

fun example_name :: "StaticClass \<Rightarrow> string" where
  "example_name RadioID = ''RadioID''"
| "example_name DigitalContact = ''DigitalContact''"
| "example_name DTMFContact = ''DTMFContact''"
| "example_name RXGroupList = ''RXGroupList''"
| "example_name Channel = ''Channel''"
| "example_name Zone = ''Zone''"
| "example_name ScanList = ''ScanList''"
| "example_name GPSSystem = ''GPSSystem''"
| "example_name APRSSystem = ''APRSSystem''"
| "example_name RoamingZone = ''RoamingZone''"

definition example_meta :: "StaticClass \<Rightarrow> QMetaObject" where
  "example_meta c = QMetaObject (example_name c) (Some ConfigObject_meta)"

definition DigitalChannel_meta :: QMetaObject where
  "DigitalChannel_meta = QMetaObject ''DigitalChannel'' (Some (example_meta Channel))"

definition AnalogChannel_meta :: QMetaObject where
  "AnalogChannel_meta = QMetaObject ''AnalogChannel'' (Some (example_meta Channel))"

text \<open>
  \<open>example_registered ob idx\<close> is the freshly constructed context of the example classes
  with the object \<open>ob\<close> at the index \<open>idx\<close> of the channel table.
\<close>

definition example_registered :: "ConfigObject \<Rightarrow> u32 \<Rightarrow> Context" where
  "example_registered ob idx =
     (Context_init example_meta)\<lparr>tables := (tables (Context_init example_meta))
        (''Channel'' \<mapsto> \<lparr>objects = [idx \<mapsto> ob], indices = [ob \<mapsto> idx]\<rparr>)\<rparr>"

section \<open>Properties of the field accessors and of the context\<close>

subsection \<open>Sub-byte fields\<close>

lemma bit_rmw:
  "bit (rmw n x b v) k \<longleftrightarrow>
     k < 8 \<and> ((bit x k \<and> \<not> (b \<le> k \<and> k - b < n)) \<or> (b \<le> k \<and> k - b < n \<and> bit v (k - b)))"
  by (auto simp add: rmw_def bit_simps dest: bit_imp_le_length)

lemma get_rmw:
  assumes "b + n \<le> 8"
  shows "(ucast (drop_bit b (ucast (rmw n x b v) :: u32) AND mask n) :: u8) = v AND mask n"
proof (rule bit_word_eqI)
  fix k assume "k < LENGTH(8)"
  then show "bit (ucast (drop_bit b (ucast (rmw n x b v) :: u32) AND mask n) :: u8) k
      \<longleftrightarrow> bit (v AND mask n) k"
    using assms by (auto simp add: bit_simps bit_rmw)
qed

lemma masks32: "(3::u32) = mask 2" "(7::u32) = mask 3" "(15::u32) = mask 4"
  "(31::u32) = mask 5" "(63::u32) = mask 6"
  by (simp_all add: mask_eq_exp_minus_1)

lemma width_cases:
  assumes "n \<in> {2..6}"
  obtains "n = (2::nat)" | "n = 3" | "n = 4" | "n = 5" | "n = 6"
  using assms by (auto simp add: numeral_eq_Suc le_Suc_eq)

lemma setUIntN_rmw:
  assumes "n \<in> {2..6}" "offset < length e" "b < 32"
  shows "setUIntN n e offset b v = Some (e[offset := rmw n (e ! offset) b v])"
  using assms(1)
proof (cases rule: width_cases)
qed (use assms(2,3) in \<open>simp_all add: setUIntN_def setUInt2_def setUInt3_def setUInt4_def
      setUInt5_def setUInt6_def rmw_def Let_def masks32\<close>)

lemma getUIntN_mask:
  assumes "n \<in> {2..6}" "offset < length e" "b < 32"
  shows "getUIntN n e offset b = Some (ucast (drop_bit b (ucast (e ! offset) :: u32) AND mask n))"
  using assms(1)
proof (cases rule: width_cases)
qed (use assms(2,3) in \<open>simp_all add: getUIntN_def getUInt2_def getUInt3_def getUInt4_def
      getUInt5_def getUInt6_def masks32\<close>)

lemma unchanged_outside_rmw:
  "offset < length e \<Longrightarrow> unchanged_outside e (e[offset := rmw n (e ! offset) b v]) offset b n"
  by (auto simp add: unchanged_outside_def bit_rmw nth_list_update)

text \<open>
  Claim C4, as amended: for a field width \<open>n\<close> from 2 to 6 and a bit position \<open>b\<close> with
  \<open>b + n \<le> 8\<close> (the field lies within the byte at \<open>offset\<close>), \<open>setUIntN\<close> succeeds, \<open>getUIntN\<close>
  then returns \<open>v & ((1 << n) - 1)\<close>, and every bit of the buffer outside the field is as
  before the call.
\<close>

theorem setUIntN_getUIntN:
  assumes "n \<in> {2..6}" and "offset < length e" and "b + n \<le> 8"
  shows "\<exists>e'. setUIntN n e offset b v = Some e' \<and>
              getUIntN n e' offset b = Some (v AND (2 ^ n - 1)) \<and>
              unchanged_outside e e' offset b n"
proof -
  from assms have b: "b < 32" by simp
  let ?e' = "e[offset := rmw n (e ! offset) b v]"
  have s: "setUIntN n e offset b v = Some ?e'"
    using assms(1,2) b by (rule setUIntN_rmw)
  have "getUIntN n ?e' offset b
          = Some (ucast (drop_bit b (ucast (?e' ! offset) :: u32) AND mask n))"
    using assms(1) _ b by (rule getUIntN_mask) (simp add: assms(2))
  also have "\<dots> = Some (v AND mask n)"
    using assms(2,3) by (simp add: get_rmw)
  finally have g: "getUIntN n ?e' offset b = Some (v AND (2 ^ n - 1))"
    by (simp add: mask_eq_exp_minus_1)
  from s g unchanged_outside_rmw [OF assms(2)] show ?thesis by blast
qed

theorem setUIntN_getUIntN_witness:
  "(3::nat) \<in> {2..6} \<and> (1::nat) < length [0xFF, 0 :: u8] \<and> (2::nat) + 3 \<le> 8 \<and>
   (\<exists>e'. setUIntN 3 [0xFF, 0] 1 2 13 = Some e' \<and>
         getUIntN 3 e' 1 2 = Some (13 AND (2 ^ 3 - 1)) \<and>
         unchanged_outside [0xFF, 0] e' 1 2 3)"
  using setUIntN_getUIntN [of 3 1 "[0xFF, 0]" 2 13] by simp

text \<open>
  Claim C4 as stated, for every bit position, fails for a field that crosses the end of
  the byte: \<open>setUInt2(0, 7, 3)\<close> on a zero byte stores \<open>0x80\<close>, and \<open>getUInt2(0, 7)\<close> then
  returns 1, not \<open>3 & 3 = 3\<close>.
\<close>

theorem setUIntN_straddling_counterexample:
  "setUIntN 2 [0] 0 7 3 = Some [128] \<and> getUIntN 2 [128] 0 7 = Some 1 \<and>
   (1 :: u8) \<noteq> 3 AND (2 ^ 2 - 1)"
  by (simp add: setUIntN_def getUIntN_def setUInt2_def getUInt2_def Let_def)

subsection \<open>Byte order\<close>

lemma bit_byte_of:
  "bit (byte0 x) n \<longleftrightarrow> n < 8 \<and> bit x n"
  "bit (byte1 x) n \<longleftrightarrow> n < 8 \<and> bit x (8 + n)"
  "bit (byte2 x) n \<longleftrightarrow> n < 8 \<and> bit x (16 + n)"
  "bit (byte3 x) n \<longleftrightarrow> n < 8 \<and> bit x (24 + n)"
  by (auto simp add: byte0_def byte1_def byte2_def byte3_def bit_simps)

lemma ff32: "(0xff::u32) = mask 8"
  by (simp add: mask_eq_exp_minus_1)

lemma ucast_and_ff: "(ucast (w AND 0xff) :: u8) = ucast (w :: u32)"
  unfolding ff32 by (rule bit_word_eqI) (simp add: bit_simps)

lemma qbswap32_eq: "qbswap32 x = byte_reversed x"
  unfolding qbswap32_def byte_reversed_def ff32
  by (rule bit_word_eqI) (auto simp add: bit_simps bit_byte_of ac_simps)

lemma word_of_bytes:
  "(ucast (byte0 x) :: u32) OR push_bit 8 (ucast (byte1 x))
     OR push_bit 16 (ucast (byte2 x)) OR push_bit 24 (ucast (byte3 x)) = x"
  by (rule bit_word_eqI) (auto simp add: bit_simps bit_byte_of ac_simps)

lemma byte_of_reversed:
  "byte0 (byte_reversed x) = byte3 x" "byte1 (byte_reversed x) = byte2 x"
  "byte2 (byte_reversed x) = byte1 x" "byte3 (byte_reversed x) = byte0 x"
proof -
  show "byte0 (byte_reversed x) = byte3 x"
    by (rule bit_word_eqI) (simp add: bit_byte_of byte_reversed_def bit_simps)
  show "byte1 (byte_reversed x) = byte2 x"
    by (rule bit_word_eqI) (simp add: bit_byte_of byte_reversed_def bit_simps)
  show "byte2 (byte_reversed x) = byte1 x"
    by (rule bit_word_eqI) (simp add: bit_byte_of byte_reversed_def bit_simps)
  show "byte3 (byte_reversed x) = byte0 x"
    by (rule bit_word_eqI) (simp add: bit_byte_of byte_reversed_def bit_simps)
qed

lemma byte_reversed_twice: "byte_reversed (byte_reversed x) = x"
proof -
  have "byte_reversed (byte_reversed x) =
    (ucast (byte0 x) :: u32) OR push_bit 8 (ucast (byte1 x))
     OR push_bit 16 (ucast (byte2 x)) OR push_bit 24 (ucast (byte3 x))"
    by (subst byte_reversed_def) (simp only: byte_of_reversed)
  then show ?thesis by (simp only: word_of_bytes)
qed

lemma field_bytes4:
  "offset + 4 \<le> length e \<Longrightarrow>
   field_bytes e offset 4 = [e ! offset, e ! (offset + 1), e ! (offset + 2), e ! (offset + 3)]"
  unfolding field_bytes_def
  by (rule nth_equalityI) (auto simp add: nth_Cons' less_Suc_eq numeral_eq_Suc)

lemma field_bytes3:
  "offset + 3 \<le> length e \<Longrightarrow>
   field_bytes e offset 3 = [e ! offset, e ! (offset + 1), e ! (offset + 2)]"
  unfolding field_bytes_def
  by (rule nth_equalityI) (auto simp add: nth_Cons' less_Suc_eq numeral_eq_Suc)

lemma store32_load32:
  assumes "offset + 4 \<le> length e"
  shows "\<exists>e'. store32 host e offset w = Some e' \<and> length e' = length e \<and>
     field_bytes e' offset 4 = (case host of
        LittleEndian \<Rightarrow> [byte0 w, byte1 w, byte2 w, byte3 w]
      | BigEndian \<Rightarrow> [byte3 w, byte2 w, byte1 w, byte0 w]) \<and>
     load32 host e' offset = Some w"
proof (cases host)
  case LittleEndian
  let ?e' = "e[offset := byte0 w, offset + 1 := byte1 w,
               offset + 2 := byte2 w, offset + 3 := byte3 w]"
  have "store32 host e offset w = Some ?e'"
    using assms LittleEndian by (simp add: store32_def byte0_def byte1_def byte2_def byte3_def)
  moreover have "field_bytes ?e' offset 4 = [byte0 w, byte1 w, byte2 w, byte3 w]"
    using assms by (simp add: field_bytes4)
  moreover have "load32 host ?e' offset = Some w"
    using assms LittleEndian by (simp add: load32_def word_of_bytes)
  ultimately show ?thesis using LittleEndian by simp
next
  case BigEndian
  let ?e' = "e[offset := byte3 w, offset + 1 := byte2 w,
               offset + 2 := byte1 w, offset + 3 := byte0 w]"
  have "store32 host e offset w = Some ?e'"
    using assms BigEndian by (simp add: store32_def byte0_def byte1_def byte2_def byte3_def)
  moreover have "field_bytes ?e' offset 4 = [byte3 w, byte2 w, byte1 w, byte0 w]"
    using assms by (simp add: field_bytes4)
  moreover have "load32 host ?e' offset = Some w"
    using assms BigEndian by (simp add: load32_def word_of_bytes)
  ultimately show ?thesis using BigEndian by simp
qed

lemma setUInt32_be_get:
  assumes "offset + 4 \<le> length e"
  shows "\<exists>e'. setUInt32_be host e offset x = Some e' \<and> length e' = length e \<and>
     field_bytes e' offset 4 = [byte3 x, byte2 x, byte1 x, byte0 x] \<and>
     getUInt32_be host e' offset = Some x \<and>
     getUInt32_le host e' offset = Some (byte_reversed x)"
proof -
  from store32_load32 [OF assms, of host "qToBigEndian32 host x"]
  obtain e' where e': "store32 host e offset (qToBigEndian32 host x) = Some e'"
      "length e' = length e"
      "field_bytes e' offset 4 = (case host of
        LittleEndian \<Rightarrow> [byte0 (qToBigEndian32 host x), byte1 (qToBigEndian32 host x),
                          byte2 (qToBigEndian32 host x), byte3 (qToBigEndian32 host x)]
      | BigEndian \<Rightarrow> [byte3 (qToBigEndian32 host x), byte2 (qToBigEndian32 host x),
                       byte1 (qToBigEndian32 host x), byte0 (qToBigEndian32 host x)])"
      "load32 host e' offset = Some (qToBigEndian32 host x)"
    by blast
  have "field_bytes e' offset 4 = [byte3 x, byte2 x, byte1 x, byte0 x]"
    using e'(3) by (cases host) (simp_all add: qToBigEndian32_def qbswap32_eq byte_of_reversed)
  moreover have "getUInt32_be host e' offset = Some x"
    using e'(4)
    by (cases host)
      (simp_all add: getUInt32_be_def qToBigEndian32_def qFromBigEndian32_def qbswap32_eq
        byte_reversed_twice)
  moreover have "getUInt32_le host e' offset = Some (byte_reversed x)"
    using e'(4)
    by (cases host)
      (simp_all add: getUInt32_le_def qToBigEndian32_def qFromLittleEndian32_def qbswap32_eq)
  ultimately show ?thesis
    using e'(1,2) by (simp add: setUInt32_be_def)
qed

lemma setUInt32_le_get:
  assumes "offset + 4 \<le> length e"
  shows "\<exists>e'. setUInt32_le host e offset x = Some e' \<and> length e' = length e \<and>
     field_bytes e' offset 4 = [byte0 x, byte1 x, byte2 x, byte3 x] \<and>
     getUInt32_le host e' offset = Some x \<and>
     getUInt32_be host e' offset = Some (byte_reversed x)"
proof -
  from store32_load32 [OF assms, of host "qToLittleEndian32 host x"]
  obtain e' where e': "store32 host e offset (qToLittleEndian32 host x) = Some e'"
      "length e' = length e"
      "field_bytes e' offset 4 = (case host of
        LittleEndian \<Rightarrow> [byte0 (qToLittleEndian32 host x), byte1 (qToLittleEndian32 host x),
                          byte2 (qToLittleEndian32 host x), byte3 (qToLittleEndian32 host x)]
      | BigEndian \<Rightarrow> [byte3 (qToLittleEndian32 host x), byte2 (qToLittleEndian32 host x),
                       byte1 (qToLittleEndian32 host x), byte0 (qToLittleEndian32 host x)])"
      "load32 host e' offset = Some (qToLittleEndian32 host x)"
    by blast
  have "field_bytes e' offset 4 = [byte0 x, byte1 x, byte2 x, byte3 x]"
    using e'(3) by (cases host) (simp_all add: qToLittleEndian32_def qbswap32_eq byte_of_reversed)
  moreover have "getUInt32_le host e' offset = Some x"
    using e'(4)
    by (cases host)
      (simp_all add: getUInt32_le_def qToLittleEndian32_def qFromLittleEndian32_def qbswap32_eq
        byte_reversed_twice)
  moreover have "getUInt32_be host e' offset = Some (byte_reversed x)"
    using e'(4)
    by (cases host)
      (simp_all add: getUInt32_be_def qToLittleEndian32_def qFromBigEndian32_def qbswap32_eq)
  ultimately show ?thesis
    using e'(1,2) by (simp add: setUInt32_le_def)
qed

lemma add_bytes24:
  fixes b0 b1 b2 :: u8
  shows "(ucast b0 :: u32) + push_bit 8 (ucast b1) + push_bit 16 (ucast b2)
           = ucast b0 OR push_bit 8 (ucast b1) OR push_bit 16 (ucast b2)"
proof -
  have "(push_bit 8 (ucast b1) :: u32) + push_bit 16 (ucast b2)
          = push_bit 8 (ucast b1) OR push_bit 16 (ucast b2)"
    by (rule disjunctive_add) (auto simp add: bit_simps dest: bit_imp_le_length)
  moreover have "(ucast b0 :: u32) + (push_bit 8 (ucast b1) OR push_bit 16 (ucast b2))
      = ucast b0 OR (push_bit 8 (ucast b1) OR push_bit 16 (ucast b2))"
    by (rule disjunctive_add) (auto simp add: bit_simps dest: bit_imp_le_length)
  ultimately show ?thesis by (simp add: add.assoc)
qed

lemma word_of_bytes24:
  "(ucast (byte0 x) :: u32) OR push_bit 8 (ucast (byte1 x))
     OR push_bit 16 (ucast (byte2 x)) = x AND 0xffffff"
proof -
  have m: "(0xffffff :: u32) = mask 24"
    by (simp add: mask_eq_exp_minus_1)
  show ?thesis
    unfolding m by (rule bit_word_eqI) (auto simp add: bit_simps bit_byte_of ac_simps)
qed

lemma setUInt24_be_get:
  assumes "offset + 3 \<le> length e"
  shows "\<exists>e'. setUInt24_be e offset x = Some e' \<and> length e' = length e \<and>
     field_bytes e' offset 3 = [byte2 x, byte1 x, byte0 x] \<and>
     getUInt24_be e' offset = Some (x AND 0xffffff)"
proof -
  let ?e' = "e[offset := byte2 x, offset + 1 := byte1 x, offset + 2 := byte0 x]"
  have "setUInt24_be e offset x = Some ?e'"
    using assms by (simp add: setUInt24_be_def ucast_and_ff byte0_def byte1_def byte2_def byte3_def)
  moreover have "field_bytes ?e' offset 3 = [byte2 x, byte1 x, byte0 x]"
    using assms by (simp add: field_bytes3)
  moreover have "getUInt24_be ?e' offset = Some (x AND 0xffffff)"
    using assms by (simp add: getUInt24_be_def add_bytes24 word_of_bytes24)
  ultimately show ?thesis by simp
qed

lemma setUInt24_le_get:
  assumes "offset + 3 \<le> length e"
  shows "\<exists>e'. setUInt24_le e offset x = Some e' \<and> length e' = length e \<and>
     field_bytes e' offset 3 = [byte0 x, byte1 x, byte2 x] \<and>
     getUInt24_le e' offset = Some (x AND 0xffffff)"
proof -
  let ?e' = "e[offset := byte0 x, offset + 1 := byte1 x, offset + 2 := byte2 x]"
  have "setUInt24_le e offset x = Some ?e'"
    using assms by (simp add: setUInt24_le_def ucast_and_ff byte0_def byte1_def byte2_def byte3_def)
  moreover have "field_bytes ?e' offset 3 = [byte0 x, byte1 x, byte2 x]"
    using assms by (simp add: field_bytes3)
  moreover have "getUInt24_le ?e' offset = Some (x AND 0xffffff)"
    using assms by (simp add: getUInt24_le_def add_bytes24 word_of_bytes24)
  ultimately show ?thesis by simp
qed

text \<open>
  Claim C6: on a host of either byte order, \<open>setUInt32_be\<close> stores the four bytes of \<open>x\<close>
  most significant first, \<open>getUInt32_be\<close> then returns \<open>x\<close> and \<open>getUInt32_le\<close> on the same
  bytes the byte-reversed value of \<open>x\<close> (and likewise with \<open>_be\<close> and \<open>_le\<close> exchanged); the
  24-bit variants store three bytes, the most significant one first for \<open>_be\<close> and last for
  \<open>_le\<close>, and read them back in the same order.
\<close>

theorem uint32_uint24_byte_order:
  "(offset + 4 \<le> length e \<longrightarrow>
     (\<exists>e'. setUInt32_be host e offset x = Some e' \<and>
           field_bytes e' offset 4 = [byte3 x, byte2 x, byte1 x, byte0 x] \<and>
           getUInt32_be host e' offset = Some x \<and>
           getUInt32_le host e' offset = Some (byte_reversed x)) \<and>
     (\<exists>e'. setUInt32_le host e offset x = Some e' \<and>
           field_bytes e' offset 4 = [byte0 x, byte1 x, byte2 x, byte3 x] \<and>
           getUInt32_le host e' offset = Some x \<and>
           getUInt32_be host e' offset = Some (byte_reversed x))) \<and>
   (offset + 3 \<le> length e \<longrightarrow>
     (\<exists>e'. setUInt24_be e offset x = Some e' \<and>
           field_bytes e' offset 3 = [byte2 x, byte1 x, byte0 x] \<and>
           getUInt24_be e' offset = Some (x AND 0xffffff)) \<and>
     (\<exists>e'. setUInt24_le e offset x = Some e' \<and>
           field_bytes e' offset 3 = [byte0 x, byte1 x, byte2 x] \<and>
           getUInt24_le e' offset = Some (x AND 0xffffff)))"
proof (intro conjI impI)
  assume a: "offset + 4 \<le> length e"
  from setUInt32_be_get [OF a, of host x]
  show "\<exists>e'. setUInt32_be host e offset x = Some e' \<and>
           field_bytes e' offset 4 = [byte3 x, byte2 x, byte1 x, byte0 x] \<and>
           getUInt32_be host e' offset = Some x \<and>
           getUInt32_le host e' offset = Some (byte_reversed x)"
    by blast
  from setUInt32_le_get [OF a, of host x]
  show "\<exists>e'. setUInt32_le host e offset x = Some e' \<and>
           field_bytes e' offset 4 = [byte0 x, byte1 x, byte2 x, byte3 x] \<and>
           getUInt32_le host e' offset = Some x \<and>
           getUInt32_be host e' offset = Some (byte_reversed x)"
    by blast
next
  assume a: "offset + 3 \<le> length e"
  from setUInt24_be_get [OF a, of x]
  show "\<exists>e'. setUInt24_be e offset x = Some e' \<and>
           field_bytes e' offset 3 = [byte2 x, byte1 x, byte0 x] \<and>
           getUInt24_be e' offset = Some (x AND 0xffffff)"
    by blast
  from setUInt24_le_get [OF a, of x]
  show "\<exists>e'. setUInt24_le e offset x = Some e' \<and>
           field_bytes e' offset 3 = [byte0 x, byte1 x, byte2 x] \<and>
           getUInt24_le e' offset = Some (x AND 0xffffff)"
    by blast
qed

theorem uint32_uint24_byte_order_witness:
  "(1::nat) + 4 \<le> length [0, 0, 0, 0, 0 :: u8] \<and>
   (\<exists>e'. setUInt32_be LittleEndian [0, 0, 0, 0, 0] 1 0x12345678 = Some e' \<and>
         field_bytes e' 1 4 = [0x12, 0x34, 0x56, 0x78] \<and>
         getUInt32_be LittleEndian e' 1 = Some 0x12345678 \<and>
         getUInt32_le LittleEndian e' 1 = Some 0x78563412) \<and>
   (\<exists>e'. setUInt32_le BigEndian [0, 0, 0, 0, 0] 1 0x12345678 = Some e' \<and>
         field_bytes e' 1 4 = [0x78, 0x56, 0x34, 0x12] \<and>
         getUInt32_le BigEndian e' 1 = Some 0x12345678 \<and>
         getUInt32_be BigEndian e' 1 = Some 0x78563412) \<and>
   (\<exists>e'. setUInt24_be [0, 0, 0, 0, 0] 1 0x12345678 = Some e' \<and>
         field_bytes e' 1 3 = [0x34, 0x56, 0x78] \<and>
         getUInt24_be e' 1 = Some 0x345678) \<and>
   (\<exists>e'. setUInt24_le [0, 0, 0, 0, 0] 1 0x12345678 = Some e' \<and>
         field_bytes e' 1 3 = [0x78, 0x56, 0x34] \<and>
         getUInt24_le e' 1 = Some 0x345678)"
proof -
  have b: "byte0 0x12345678 = 0x78" "byte1 0x12345678 = 0x56"
    "byte2 0x12345678 = 0x34" "byte3 0x12345678 = 0x12"
    by (simp_all add: byte0_def byte1_def byte2_def byte3_def drop_bit_eq_div)
  have r: "byte_reversed 0x12345678 = 0x78563412"
    by (simp add: byte_reversed_def b push_bit_eq_mult)
  have m: "(0x12345678 :: u32) AND 0xffffff = 0x345678"
    by simp
  have l: "(1::nat) + 4 \<le> length [0, 0, 0, 0, 0 :: u8]" "(1::nat) + 3 \<le> length [0, 0, 0, 0, 0 :: u8]"
    by simp_all
  show ?thesis
    using uint32_uint24_byte_order [of 1 "[0, 0, 0, 0, 0]" LittleEndian "0x12345678"]
      uint32_uint24_byte_order [of 1 "[0, 0, 0, 0, 0]" BigEndian "0x12345678"]
    unfolding b r m using l by blast
qed

subsection \<open>Binary-coded decimals\<close>

lemma word_digit:
  fixes val :: u32
  assumes "unat c = 10 ^ k"
  shows "(val div c) mod 10 = of_nat (digit (unat val) k)"
proof -
  have "unat ((val div c) mod 10) = digit (unat val) k"
    by (simp add: unat_div unat_mod assms digit_def)
  then show ?thesis
    by (metis of_nat_unat ucast_id)
qed

lemma horner16_bound: "\<forall>d \<in> set ds. d < 16 \<Longrightarrow> horner 16 ds < 16 ^ length ds"
  by (induction ds) (auto simp add: algebra_simps)

lemma horner16_nibble:
  assumes "\<forall>d \<in> set ds. d < 16" "k < length ds"
  shows "(horner 16 ds div 16 ^ k) mod 16 = ds ! k"
  using assms
proof (induction ds arbitrary: k)
  case Nil
  then show ?case by simp
next
  case (Cons d ds)
  show ?case
  proof (cases k)
    case 0
    with Cons.prems show ?thesis by simp
  next
    case (Suc j)
    have "(d + 16 * horner 16 ds) div (16 * 16 ^ j) = ((d + 16 * horner 16 ds) div 16) div 16 ^ j"
      by (simp add: div_mult2_eq)
    also have "(d + 16 * horner 16 ds) div 16 = horner 16 ds"
      using Cons.prems by simp
    finally show ?thesis
      using Cons.IH [of j] Cons.prems Suc by simp
  qed
qed

lemma mod_pow10_step: "n mod (10 * 10 ^ k) = n mod 10 ^ k + 10 ^ k * digit n k"
  using mod_mult2_eq [of n "10 ^ k" 10] by (simp add: digit_def mult.commute)

lemma horner10_digits8:
  "horner 10 [digit n 0, digit n 1, digit n 2, digit n 3, digit n 4, digit n 5, digit n 6, digit n 7]
     = n mod 100000000"
  using mod_pow10_step [of n 0] mod_pow10_step [of n 1] mod_pow10_step [of n 2]
    mod_pow10_step [of n 3] mod_pow10_step [of n 4] mod_pow10_step [of n 5]
    mod_pow10_step [of n 6] mod_pow10_step [of n 7]
  by simp

lemma horner10_digits4:
  "horner 10 [digit n 0, digit n 1, digit n 2, digit n 3] = n mod 10000"
  using mod_pow10_step [of n 0] mod_pow10_step [of n 1] mod_pow10_step [of n 2]
    mod_pow10_step [of n 3]
  by simp

lemma horner10_digits2:
  "horner 10 [digit n 0, digit n 1] = n mod 100"
  using mod_pow10_step [of n 0] mod_pow10_step [of n 1]
  by simp

lemma digit_less: "digit n k < 16"
proof -
  have "digit n k < 10" by (simp add: digit_def)
  then show ?thesis by simp
qed

lemma len32: "LENGTH(32) = 32"
  by simp

lemma nibble_of_nat:
  assumes "P < 2 ^ 32"
  shows "drop_bit (4 * k) (of_nat P :: u32) AND 0xf = of_nat ((P div 16 ^ k) mod 16)"
proof -
  have m: "(0xf :: u32) = mask 4"
    by (simp add: mask_eq_exp_minus_1)
  have p: "(16::nat) ^ k = 2 ^ (4 * k)"
    by (simp add: power_mult)
  have "unat (take_bit 4 (drop_bit (4 * k) (of_nat P :: u32)))
          = take_bit 4 (drop_bit (4 * k) (take_bit 32 P))"
    by (simp only: unsigned_take_bit_eq unat_drop_bit_eq unsigned_of_nat of_nat_id len32)
  also have "\<dots> = (P div 16 ^ k) mod 16"
    using assms by (simp add: take_bit_eq_mod drop_bit_eq_div p)
  finally have "unat (take_bit 4 (drop_bit (4 * k) (of_nat P :: u32))) = (P div 16 ^ k) mod 16" .
  moreover have "unat (of_nat ((P div 16 ^ k) mod 16) :: u32) = (P div 16 ^ k) mod 16"
    by (simp add: unsigned_of_nat take_bit_eq_mod)
  ultimately show ?thesis
    unfolding m by (simp add: word_unat_eq_iff flip: take_bit_eq_mask)
qed

lemma word_mod_if:
  fixes v c :: "'a::len word"
  shows "(if v < c then v else v mod c) = v mod c"
  by (simp add: word_unat_eq_iff unat_mod word_less_nat_alt)

text \<open>Eight digits.\<close>

lemma packBCD8_of_nat:
  "packBCD8 val = of_nat (horner 16 [digit (unat val) 0, digit (unat val) 1, digit (unat val) 2,
     digit (unat val) 3, digit (unat val) 4, digit (unat val) 5, digit (unat val) 6,
     digit (unat val) 7])"
proof -
  have "(val div 10000000) mod 10 = of_nat (digit (unat val) 7)"
       "(val div 1000000) mod 10 = of_nat (digit (unat val) 6)"
       "(val div 100000) mod 10 = of_nat (digit (unat val) 5)"
       "(val div 10000) mod 10 = of_nat (digit (unat val) 4)"
       "(val div 1000) mod 10 = of_nat (digit (unat val) 3)"
       "(val div 100) mod 10 = of_nat (digit (unat val) 2)"
       "(val div 10) mod 10 = of_nat (digit (unat val) 1)"
       "(val div 1) mod 10 = of_nat (digit (unat val) 0)"
    by (rule word_digit, simp)+
  then show ?thesis
    unfolding packBCD8_def Let_def by (simp add: push_bit_eq_mult)
qed

lemma unpackBCD8_of_nat:
  assumes "\<forall>d \<in> set [d0, d1, d2, d3, d4, d5, d6, d7]. d < 16"
  shows "unpackBCD8 (of_nat (horner 16 [d0, d1, d2, d3, d4, d5, d6, d7]))
           = of_nat (horner 10 [d0, d1, d2, d3, d4, d5, d6, d7])"
proof -
  let ?ds = "[d0, d1, d2, d3, d4, d5, d6, d7]"
  let ?P = "horner 16 ?ds"
  have "?P < 16 ^ length ?ds"
    using assms by (rule horner16_bound)
  then have b: "?P < 2 ^ 32" by simp
  have n: "drop_bit (4 * k) (of_nat ?P :: u32) AND 0xf = of_nat (?ds ! k)" if "k < 8" for k
    using nibble_of_nat [OF b, of k] horner16_nibble [OF assms, of k] that by simp
  from n [of 0] n [of 1] n [of 2] n [of 3] n [of 4] n [of 5] n [of 6] n [of 7]
  show ?thesis
    unfolding unpackBCD8_def by simp
qed

lemma unpack_pack_BCD8: "unpackBCD8 (packBCD8 val) = val mod 100000000"
proof -
  let ?n = "unat val"
  have "unpackBCD8 (packBCD8 val) = of_nat (?n mod 100000000)"
    unfolding packBCD8_of_nat
    by (subst unpackBCD8_of_nat)
      (simp_all only: horner10_digits8 digit_less list.set ball_simps simp_thms)
  also have "\<dots> = val mod 100000000"
    by (simp add: word_unat_eq_iff unat_mod unsigned_of_nat take_bit_eq_mod)
  finally show ?thesis .
qed

text \<open>Four digits: the packed value passes through a 16-bit store and load.\<close>

lemma unat_ucast16: "unat (ucast (v :: u16) :: u32) = unat v"
proof -
  have "unat v < 2 ^ 16"
    using unsigned_less [of v, where 'a = nat] by simp
  then show ?thesis
    by (simp add: unsigned_ucast_eq take_bit_eq_mod)
qed

lemma narrow_widen16:
  assumes "P < 2 ^ 16"
  shows "(ucast (ucast (of_nat P :: u32) :: u16) :: u32) = of_nat P"
  using assms
  by (simp add: word_unat_eq_iff unsigned_ucast_eq unsigned_of_nat take_bit_eq_mod)

lemma packBCD4_of_nat:
  "packBCD4 val = of_nat (horner 16 [digit (unat val) 0, digit (unat val) 1, digit (unat val) 2,
     digit (unat val) 3])"
proof -
  have "((ucast val :: u32) div 1000) mod 10 = of_nat (digit (unat val) 3)"
       "((ucast val :: u32) div 100) mod 10 = of_nat (digit (unat val) 2)"
       "((ucast val :: u32) div 10) mod 10 = of_nat (digit (unat val) 1)"
       "((ucast val :: u32) div 1) mod 10 = of_nat (digit (unat val) 0)"
    unfolding unat_ucast16 [of val, symmetric] by (rule word_digit, simp)+
  then show ?thesis
    unfolding packBCD4_def Let_def by (simp add: push_bit_eq_mult)
qed

lemma unpackBCD4_of_nat:
  assumes "\<forall>d \<in> set [d0, d1, d2, d3]. d < 16"
  shows "unpackBCD4 (of_nat (horner 16 [d0, d1, d2, d3])) = of_nat (horner 10 [d0, d1, d2, d3])"
proof -
  let ?ds = "[d0, d1, d2, d3]"
  let ?P = "horner 16 ?ds"
  have "?P < 16 ^ length ?ds"
    using assms by (rule horner16_bound)
  then have b: "?P < 2 ^ 32" by simp
  have n: "drop_bit (4 * k) (of_nat ?P :: u32) AND 0xf = of_nat (?ds ! k)" if "k < 4" for k
    using nibble_of_nat [OF b, of k] horner16_nibble [OF assms, of k] that by simp
  from n [of 0] n [of 1] n [of 2] n [of 3]
  show ?thesis
    unfolding unpackBCD4_def by simp
qed

lemma unpack_pack_BCD4:
  "(ucast (unpackBCD4 (ucast (ucast (packBCD4 val) :: u16))) :: u16) = val mod 10000"
proof -
  let ?n = "unat val"
  let ?ds = "[digit ?n 0, digit ?n 1, digit ?n 2, digit ?n 3]"
  have d: "\<forall>d \<in> set ?ds. d < 16"
    by (simp add: digit_less)
  have "horner 16 ?ds < 16 ^ length ?ds"
    using d by (rule horner16_bound)
  then have "horner 16 ?ds < 2 ^ 16" by simp
  then have "(ucast (ucast (packBCD4 val) :: u16) :: u32) = of_nat (horner 16 ?ds)"
    unfolding packBCD4_of_nat by (rule narrow_widen16)
  then have "unpackBCD4 (ucast (ucast (packBCD4 val) :: u16)) = of_nat (?n mod 10000)"
    using unpackBCD4_of_nat [OF d] by (simp only: horner10_digits4)
  moreover have "(ucast (of_nat (?n mod 10000) :: u32) :: u16) = val mod 10000"
    by (simp add: word_unat_eq_iff unat_mod unsigned_ucast_eq unsigned_of_nat take_bit_eq_mod)
  ultimately show ?thesis by simp
qed

text \<open>Two digits: the digits and the packed value pass through \<open>uint8_t\<close>.\<close>

lemma unat_ucast8: "unat (ucast (v :: u8) :: u32) = unat v"
proof -
  have "unat v < 2 ^ 8"
    using unsigned_less [of v, where 'a = nat] by simp
  then show ?thesis
    by (simp add: unsigned_ucast_eq take_bit_eq_mod)
qed

lemma narrow_widen8:
  assumes "P < 2 ^ 8"
  shows "(ucast (ucast (of_nat P :: u32) :: u8) :: u32) = of_nat P"
  using assms
  by (simp add: word_unat_eq_iff unsigned_ucast_eq unsigned_of_nat take_bit_eq_mod)

lemma getBCD2_setBCD2:
  assumes "offset < length e"
  shows "\<exists>e'. setBCD2 e offset val = Some e' \<and> getBCD2 e' offset = Some (val mod 100)"
proof -
  let ?n = "unat val"
  let ?ds = "[digit ?n 0, digit ?n 1]"
  let ?P = "horner 16 ?ds"
  let ?B = "(ucast (of_nat ?P :: u32) :: u8)"
  have d: "\<forall>d \<in> set ?ds. d < 16"
    by (simp add: digit_less)
  have "?P < 16 ^ length ?ds"
    using d by (rule horner16_bound)
  then have P8: "?P < 2 ^ 8" and P32: "?P < 2 ^ 32" by simp_all
  have w: "((ucast val :: u32) div 10) mod 10 = of_nat (digit ?n 1)"
       "((ucast val :: u32) div 1) mod 10 = of_nat (digit ?n 0)"
    unfolding unat_ucast8 [of val, symmetric] by (rule word_digit, simp)+
  have dd: "digit ?n k < 2 ^ 8" for k
    using digit_less [of ?n k] by simp
  have "setBCD2 e offset val = setUInt8 e offset ?B"
    unfolding setBCD2_def Let_def w
    by (simp add: narrow_widen8 [OF dd] push_bit_eq_mult ac_simps)
  then have s: "setBCD2 e offset val = Some (e[offset := ?B])"
    using assms by (simp add: setUInt8_def)
  have n: "drop_bit (4 * k) (of_nat ?P :: u32) AND 0xf = of_nat (?ds ! k)" if "k < 2" for k
    using nibble_of_nat [OF P32, of k] horner16_nibble [OF d, of k] that by simp
  have "((ucast ?B :: u32) AND 0xf) + (drop_bit 4 (ucast ?B :: u32) AND 0xf) * 10
          = of_nat (horner 10 ?ds)"
    unfolding narrow_widen8 [OF P8] using n [of 0] n [of 1] by simp
  also have "\<dots> = of_nat (?n mod 100)"
    by (simp only: horner10_digits2)
  finally have "((ucast ?B :: u32) AND 0xf) + (drop_bit 4 (ucast ?B :: u32) AND 0xf) * 10
      = of_nat (?n mod 100)" .
  moreover have "(ucast (of_nat (?n mod 100) :: u32) :: u8) = val mod 100"
    by (simp add: word_unat_eq_iff unat_mod unsigned_ucast_eq unsigned_of_nat take_bit_eq_mod)
  ultimately have "getBCD2 (e[offset := ?B]) offset = Some (val mod 100)"
    using assms by (simp add: getBCD2_def getUInt8_def)
  with s show ?thesis by blast
qed

text \<open>The 16-bit accessors read back what they stored.\<close>

lemma qbswap16_qbswap16: "qbswap16 (qbswap16 x) = x"
proof -
  have m: "(0xff :: u16) = mask 8"
    by (simp add: mask_eq_exp_minus_1)
  show ?thesis
    unfolding qbswap16_def m
    by (rule bit_word_eqI) (auto simp add: bit_simps)
qed

lemma word_of_bytes16:
  "(ucast (ucast w :: u8) :: u16) OR push_bit 8 (ucast (ucast (drop_bit 8 w) :: u8)) = w"
  by (rule bit_word_eqI) (auto simp add: bit_simps)

lemma store16_load16:
  assumes "offset + 2 \<le> length e"
  shows "\<exists>e'. store16 host e offset w = Some e' \<and> length e' = length e \<and>
     load16 host e' offset = Some w"
  using assms
  by (cases host) (simp_all add: store16_def load16_def word_of_bytes16)

lemma setUInt16_be_get:
  assumes "offset + 2 \<le> length e"
  shows "\<exists>e'. setUInt16_be host e offset v = Some e' \<and> getUInt16_be host e' offset = Some v"
proof -
  from store16_load16 [OF assms, of host "qToBigEndian16 host v"]
  obtain e' where "store16 host e offset (qToBigEndian16 host v) = Some e'"
    and "load16 host e' offset = Some (qToBigEndian16 host v)"
    by blast
  then have "setUInt16_be host e offset v = Some e' \<and> getUInt16_be host e' offset = Some v"
    by (cases host)
      (simp_all add: setUInt16_be_def getUInt16_be_def qToBigEndian16_def qFromBigEndian16_def
        qbswap16_qbswap16)
  then show ?thesis by blast
qed

lemma setUInt16_le_get:
  assumes "offset + 2 \<le> length e"
  shows "\<exists>e'. setUInt16_le host e offset v = Some e' \<and> getUInt16_le host e' offset = Some v"
proof -
  from store16_load16 [OF assms, of host "qToLittleEndian16 host v"]
  obtain e' where "store16 host e offset (qToLittleEndian16 host v) = Some e'"
    and "load16 host e' offset = Some (qToLittleEndian16 host v)"
    by blast
  then have "setUInt16_le host e offset v = Some e' \<and> getUInt16_le host e' offset = Some v"
    by (cases host)
      (simp_all add: setUInt16_le_def getUInt16_le_def qToLittleEndian16_def
        qFromLittleEndian16_def qbswap16_qbswap16)
  then show ?thesis by blast
qed

lemma getBCD4_setBCD4:
  assumes "offset + 2 \<le> length e"
  shows "\<exists>e'. setBCD4_be host e offset val = Some e' \<and>
              getBCD4_be host e' offset = Some (val mod 10000)"
    and "\<exists>e'. setBCD4_le host e offset val = Some e' \<and>
              getBCD4_le host e' offset = Some (val mod 10000)"
proof -
  from setUInt16_be_get [OF assms, of host "ucast (packBCD4 val)"]
  show "\<exists>e'. setBCD4_be host e offset val = Some e' \<and>
              getBCD4_be host e' offset = Some (val mod 10000)"
    by (auto simp add: setBCD4_be_def getBCD4_be_def unpack_pack_BCD4)
  from setUInt16_le_get [OF assms, of host "ucast (packBCD4 val)"]
  show "\<exists>e'. setBCD4_le host e offset val = Some e' \<and>
              getBCD4_le host e' offset = Some (val mod 10000)"
    by (auto simp add: setBCD4_le_def getBCD4_le_def unpack_pack_BCD4)
qed

lemma getBCD8_setBCD8:
  assumes "offset + 4 \<le> length e"
  shows "\<exists>e'. setBCD8_be host e offset val = Some e' \<and>
              getBCD8_be host e' offset = Some (val mod 100000000)"
    and "\<exists>e'. setBCD8_le host e offset val = Some e' \<and>
              getBCD8_le host e' offset = Some (val mod 100000000)"
proof -
  from setUInt32_be_get [OF assms, of host "packBCD8 val"]
  show "\<exists>e'. setBCD8_be host e offset val = Some e' \<and>
              getBCD8_be host e' offset = Some (val mod 100000000)"
    by (auto simp add: setBCD8_be_def getBCD8_be_def unpack_pack_BCD8)
  from setUInt32_le_get [OF assms, of host "packBCD8 val"]
  show "\<exists>e'. setBCD8_le host e offset val = Some e' \<and>
              getBCD8_le host e' offset = Some (val mod 100000000)"
    by (auto simp add: setBCD8_le_def getBCD8_le_def unpack_pack_BCD8)
qed

text \<open>
  Claim C5: for two, four and eight digits, in the \<open>_be\<close> and the \<open>_le\<close> variant and on a
  host of either byte order, a value below \<open>10 ^ D\<close> is read back as it was written, and a
  larger value is read back reduced modulo \<open>10 ^ D\<close>.
\<close>

theorem BCD_set_get:
  "(offset < length e \<longrightarrow>
     (\<exists>e'. setBCD2 e offset v2 = Some e' \<and>
           getBCD2 e' offset = Some (if v2 < 100 then v2 else v2 mod 100))) \<and>
   (offset + 2 \<le> length e \<longrightarrow>
     (\<exists>e'. setBCD4_be host e offset v4 = Some e' \<and>
           getBCD4_be host e' offset = Some (if v4 < 10000 then v4 else v4 mod 10000)) \<and>
     (\<exists>e'. setBCD4_le host e offset v4 = Some e' \<and>
           getBCD4_le host e' offset = Some (if v4 < 10000 then v4 else v4 mod 10000))) \<and>
   (offset + 4 \<le> length e \<longrightarrow>
     (\<exists>e'. setBCD8_be host e offset v8 = Some e' \<and>
           getBCD8_be host e' offset = Some (if v8 < 100000000 then v8 else v8 mod 100000000)) \<and>
     (\<exists>e'. setBCD8_le host e offset v8 = Some e' \<and>
           getBCD8_le host e' offset = Some (if v8 < 100000000 then v8 else v8 mod 100000000)))"
  unfolding word_mod_if
  using getBCD2_setBCD2 [of offset e v2] getBCD4_setBCD4 [of offset e host v4]
    getBCD8_setBCD8 [of offset e host v8]
  by blast

theorem BCD_set_get_witness:
  "(0::nat) + 4 \<le> length [0, 0, 0, 0 :: u8] \<and>
   (\<exists>e'. setBCD2 [0, 0, 0, 0] 0 234 = Some e' \<and> getBCD2 e' 0 = Some 34) \<and>
   (\<exists>e'. setBCD4_be LittleEndian [0, 0, 0, 0] 0 1234 = Some e' \<and>
         getBCD4_be LittleEndian e' 0 = Some 1234) \<and>
   (\<exists>e'. setBCD4_le LittleEndian [0, 0, 0, 0] 0 1234 = Some e' \<and>
         getBCD4_le LittleEndian e' 0 = Some 1234) \<and>
   (\<exists>e'. setBCD8_be LittleEndian [0, 0, 0, 0] 0 4123456789 = Some e' \<and>
         getBCD8_be LittleEndian e' 0 = Some 23456789) \<and>
   (\<exists>e'. setBCD8_le LittleEndian [0, 0, 0, 0] 0 4123456789 = Some e' \<and>
         getBCD8_le LittleEndian e' 0 = Some 23456789)"
  using BCD_set_get [of 0 "[0, 0, 0, 0]" 234 LittleEndian 1234 4123456789]
  by simp

subsection \<open>Frame conditions of the write operations\<close>

lemma writes_within_update:
  "offset < length e \<Longrightarrow> writes_within e offset 1 (Some (e[offset := x]))"
  by (simp add: writes_within_def nth_list_update)

lemma writes_within_None:
  "\<not> offset + n \<le> length e \<Longrightarrow> writes_within e offset n None"
  by (simp add: writes_within_def)

lemma writes_within_bits:
  assumes "b < 32"
  shows "writes_within e offset 1 (setBit e offset b v)"
    and "writes_within e offset 1 (clearBit e offset b)"
    and "writes_within e offset 1 (setUInt2 e offset b u)"
    and "writes_within e offset 1 (setUInt3 e offset b u)"
    and "writes_within e offset 1 (setUInt4 e offset b u)"
    and "writes_within e offset 1 (setUInt5 e offset b u)"
    and "writes_within e offset 1 (setUInt6 e offset b u)"
  using assms
  by (simp_all add: writes_within_def nth_list_update setBit_def clearBit_def setUInt2_def
      setUInt3_def setUInt4_def setUInt5_def setUInt6_def Let_def)

lemma writes_within_bytes:
  shows "writes_within e offset 1 (setUInt8 e offset u)"
    and "writes_within e offset 1 (setBCD2 e offset u)"
  by (simp_all add: writes_within_def nth_list_update setUInt8_def setBCD2_def Let_def)

lemma writes_within_store16: "writes_within e offset 2 (store16 host e offset w)"
  by (cases host) (simp_all add: writes_within_def nth_list_update store16_def)

lemma writes_within_16:
  shows "writes_within e offset 2 (setUInt16_be host e offset w)"
    and "writes_within e offset 2 (setUInt16_le host e offset w)"
    and "writes_within e offset 2 (setBCD4_be host e offset w)"
    and "writes_within e offset 2 (setBCD4_le host e offset w)"
  by (simp_all add: setUInt16_be_def setUInt16_le_def setBCD4_be_def setBCD4_le_def
      writes_within_store16)

lemma writes_within_24:
  shows "writes_within e offset 3 (setUInt24_be e offset x)"
    and "writes_within e offset 3 (setUInt24_le e offset x)"
  by (simp_all add: writes_within_def nth_list_update setUInt24_be_def setUInt24_le_def)

lemma writes_within_store32: "writes_within e offset 4 (store32 host e offset w)"
  by (cases host) (simp_all add: writes_within_def nth_list_update store32_def)

lemma writes_within_32:
  shows "writes_within e offset 4 (setUInt32_be host e offset x)"
    and "writes_within e offset 4 (setUInt32_le host e offset x)"
    and "writes_within e offset 4 (setBCD8_be host e offset x)"
    and "writes_within e offset 4 (setBCD8_le host e offset x)"
  by (simp_all add: setUInt32_be_def setUInt32_le_def setBCD8_be_def setBCD8_le_def
      writes_within_store32)

lemma writeASCII_loop_defined:
  "offset + maxlen \<le> length e \<Longrightarrow> writeASCII_loop e offset s maxlen eos i \<noteq> None"
proof (induction e offset s maxlen eos i rule: writeASCII_loop.induct)
  case (1 e offset s maxlen eos i)
  show ?case
  proof (cases "i < maxlen")
    case True
    then have "offset + i < length e" using "1.prems" by simp
    with True "1.IH" "1.prems" show ?thesis
      by (subst writeASCII_loop.simps) simp
  next
    case False
    then show ?thesis by (subst writeASCII_loop.simps) simp
  qed
qed

lemma writeASCII_loop_frame:
  "writeASCII_loop e offset s maxlen eos i = Some e' \<Longrightarrow>
   length e' = length e \<and> (\<forall>j<length e. j < offset + i \<or> offset + maxlen \<le> j \<longrightarrow> e' ! j = e ! j)"
proof (induction e offset s maxlen eos i arbitrary: e' rule: writeASCII_loop.induct)
  case (1 e offset s maxlen eos i)
  show ?case
  proof (cases "i < maxlen")
    case True
    show ?thesis
    proof (cases "offset + i < length e")
      case inb: True
      let ?e1 = "e[offset + i := (if i < length s then toLatin1 (s ! i) else eos)]"
      from "1.prems" True inb have "writeASCII_loop ?e1 offset s maxlen eos (i + 1) = Some e'"
        by (subst (asm) writeASCII_loop.simps) simp
      from "1.IH" [OF True inb this]
      have "length e' = length ?e1"
        and "\<forall>j<length ?e1. j < offset + (i + 1) \<or> offset + maxlen \<le> j \<longrightarrow> e' ! j = ?e1 ! j"
        by simp_all
      then show ?thesis
        using True by (auto simp add: nth_list_update)
    next
      case False
      with "1.prems" True show ?thesis
        by (subst (asm) writeASCII_loop.simps) simp
    qed
  next
    case False
    with "1.prems" show ?thesis
      by (subst (asm) writeASCII_loop.simps) simp
  qed
qed

lemma writes_within_writeASCII:
  "writes_within e offset maxlen (writeASCII e offset s maxlen eos)"
  unfolding writes_within_def writeASCII_def
  using writeASCII_loop_defined [of offset maxlen e s eos 0]
    writeASCII_loop_frame [of e offset s maxlen eos 0]
  by auto

text \<open>
  Claim C10: every write operation changes only the bytes of its field: one byte for
  \<open>setBit\<close>, \<open>clearBit\<close>, \<open>setUInt2\<close> to \<open>setUInt6\<close>, \<open>setUInt8\<close> and \<open>setBCD2\<close>, two bytes for
  \<open>setUInt16\<close> and \<open>setBCD4\<close>, three for \<open>setUInt24\<close>, four for \<open>setUInt32\<close> and \<open>setBCD8\<close>,
  and \<open>maxlen\<close> bytes for \<open>writeASCII\<close>; the operations are defined whenever the field lies
  inside the buffer (and the bit position is a valid shift count).
\<close>

theorem write_operations_frame:
  assumes "b < 32"
  shows "writes_within e offset 1 (setBit e offset b v) \<and>
         writes_within e offset 1 (clearBit e offset b) \<and>
         writes_within e offset 1 (setUInt2 e offset b u) \<and>
         writes_within e offset 1 (setUInt3 e offset b u) \<and>
         writes_within e offset 1 (setUInt4 e offset b u) \<and>
         writes_within e offset 1 (setUInt5 e offset b u) \<and>
         writes_within e offset 1 (setUInt6 e offset b u) \<and>
         writes_within e offset 1 (setUInt8 e offset u) \<and>
         writes_within e offset 1 (setBCD2 e offset u) \<and>
         writes_within e offset 2 (setUInt16_be host e offset w) \<and>
         writes_within e offset 2 (setUInt16_le host e offset w) \<and>
         writes_within e offset 2 (setBCD4_be host e offset w) \<and>
         writes_within e offset 2 (setBCD4_le host e offset w) \<and>
         writes_within e offset 3 (setUInt24_be e offset x) \<and>
         writes_within e offset 3 (setUInt24_le e offset x) \<and>
         writes_within e offset 4 (setUInt32_be host e offset x) \<and>
         writes_within e offset 4 (setUInt32_le host e offset x) \<and>
         writes_within e offset 4 (setBCD8_be host e offset x) \<and>
         writes_within e offset 4 (setBCD8_le host e offset x) \<and>
         writes_within e offset maxlen (writeASCII e offset txt maxlen eos)"
  by (intro conjI writes_within_bits [OF assms] writes_within_bytes writes_within_16
      writes_within_24 writes_within_32 writes_within_writeASCII)

theorem write_operations_frame_witness:
  "(3::nat) < 32 \<and>
   setBit [1, 2, 3, 4, 5, 6] 1 3 True = Some [1, 10, 3, 4, 5, 6] \<and>
   writes_within [1, 2, 3, 4, 5, 6] 1 1 (setBit [1, 2, 3, 4, 5, 6] 1 3 True) \<and>
   setUInt24_be [1, 2, 3, 4, 5, 6] 1 0xABCDEF = Some [1, 0xAB, 0xCD, 0xEF, 5, 6] \<and>
   writes_within [1, 2, 3, 4, 5, 6] 1 3 (setUInt24_be [1, 2, 3, 4, 5, 6] 1 0xABCDEF) \<and>
   writes_within [1, 2, 3, 4, 5, 6] 1 4 (setUInt32_le BigEndian [1, 2, 3, 4, 5, 6] 1 0xABCDEF) \<and>
   writes_within [1, 2, 3, 4, 5, 6] 1 2 (writeASCII [1, 2, 3, 4, 5, 6] 1 [0x41] 2 0xff)"
proof -
  have "setBit [1, 2, 3, 4, 5, 6] 1 3 True = Some [1, 10, 3, 4, 5, 6]"
    by (simp add: setBit_def)
  moreover have "setUInt24_be [1, 2, 3, 4, 5, 6] 1 0xABCDEF = Some [1, 0xAB, 0xCD, 0xEF, 5, 6]"
    by (simp add: setUInt24_be_def drop_bit_eq_div)
  ultimately show ?thesis
    using write_operations_frame [of 3 "[1, 2, 3, 4, 5, 6]" 1 True 0 BigEndian 0 "0xABCDEF"
        2 "[0x41]" "0xff"]
    by simp
qed

subsection \<open>Fixed-length ASCII strings\<close>

lemma writeASCII_loop_written:
  "writeASCII_loop e offset s maxlen eos i = Some e' \<Longrightarrow>
   \<forall>k. i \<le> k \<and> k < maxlen \<longrightarrow>
     e' ! (offset + k) = (if k < length s then toLatin1 (s ! k) else eos)"
proof (induction e offset s maxlen eos i arbitrary: e' rule: writeASCII_loop.induct)
  case (1 e offset s maxlen eos i)
  show ?case
  proof (cases "i < maxlen")
    case True
    show ?thesis
    proof (cases "offset + i < length e")
      case inb: True
      let ?e1 = "e[offset + i := (if i < length s then toLatin1 (s ! i) else eos)]"
      from "1.prems" True inb
      have r: "writeASCII_loop ?e1 offset s maxlen eos (i + 1) = Some e'"
        by (subst (asm) writeASCII_loop.simps) simp
      from "1.IH" [OF True inb r]
      have later: "\<forall>k. i + 1 \<le> k \<and> k < maxlen \<longrightarrow>
          e' ! (offset + k) = (if k < length s then toLatin1 (s ! k) else eos)" .
      from writeASCII_loop_frame [OF r] inb
      have "e' ! (offset + i) = ?e1 ! (offset + i)"
        by simp
      then have here: "e' ! (offset + i) = (if i < length s then toLatin1 (s ! i) else eos)"
        using inb by simp
      show ?thesis
      proof (intro allI impI)
        fix k assume k: "i \<le> k \<and> k < maxlen"
        show "e' ! (offset + k) = (if k < length s then toLatin1 (s ! k) else eos)"
        proof (cases "k = i")
          case True
          with here show ?thesis by simp
        next
          case False
          with k have "i + 1 \<le> k \<and> k < maxlen" by simp
          with later show ?thesis by blast
        qed
      qed
    next
      case False
      with "1.prems" True show ?thesis
        by (subst (asm) writeASCII_loop.simps) simp
    qed
  next
    case False
    then show ?thesis by auto
  qed
qed

lemma writeASCII_field:
  assumes "offset + maxlen \<le> length e"
  shows "\<exists>e'. writeASCII e offset s maxlen eos = Some e' \<and> length e' = length e \<and>
     field_bytes e' offset maxlen = map toLatin1 (take maxlen s) @ replicate (maxlen - length s) eos"
proof -
  from writeASCII_loop_defined [OF assms, of s eos 0]
  obtain e' where w: "writeASCII_loop e offset s maxlen eos 0 = Some e'"
    by blast
  from writeASCII_loop_frame [OF w] have len: "length e' = length e"
    by simp
  from writeASCII_loop_written [OF w]
  have at: "e' ! (offset + k) = (if k < length s then toLatin1 (s ! k) else eos)"
    if "k < maxlen" for k
    using that by simp
  have "field_bytes e' offset maxlen
          = map toLatin1 (take maxlen s) @ replicate (maxlen - length s) eos"
    unfolding field_bytes_def
  proof (rule nth_equalityI)
    show "length (take maxlen (drop offset e'))
        = length (map toLatin1 (take maxlen s) @ replicate (maxlen - length s) eos)"
      using assms len by auto
  next
    fix k assume "k < length (take maxlen (drop offset e'))"
    then have k: "k < maxlen" by simp
    then have "take maxlen (drop offset e') ! k = e' ! (offset + k)"
      using assms len by simp
    also have "\<dots> = (if k < length s then toLatin1 (s ! k) else eos)"
      using k by (rule at)
    also have "\<dots> = (map toLatin1 (take maxlen s) @ replicate (maxlen - length s) eos) ! k"
      using k by (auto simp add: nth_append)
    finally show "take maxlen (drop offset e') ! k
        = (map toLatin1 (take maxlen s) @ replicate (maxlen - length s) eos) ! k" .
  qed
  with w len show ?thesis
    by (simp add: writeASCII_def)
qed

lemma readASCII_loop_eq:
  assumes "offset + maxlen \<le> length e" "i \<le> maxlen"
  shows "readASCII_loop e offset maxlen eos i acc =
     Some (acc @ map fromLatin1
        (takeWhile (\<lambda>c. c \<noteq> 0 \<and> c \<noteq> eos) (take (maxlen - i) (drop (offset + i) e))))"
  using assms
proof (induction e offset maxlen eos i acc rule: readASCII_loop.induct)
  case (1 e offset maxlen eos i acc)
  show ?case
  proof (cases "i < maxlen")
    case True
    then have inb: "offset + i < length e"
      using "1.prems" by simp
    from True obtain m where m: "maxlen - i = Suc m" "maxlen - (i + 1) = m"
      by (cases "maxlen - i") simp_all
    have "drop (offset + i) e = e ! (offset + i) # drop (offset + (i + 1)) e"
      using inb by (simp add: Cons_nth_drop_Suc)
    then have d: "take (maxlen - i) (drop (offset + i) e)
        = e ! (offset + i) # take (maxlen - (i + 1)) (drop (offset + (i + 1)) e)"
      using m by simp
    show ?thesis
    proof (cases "e ! (offset + i) \<noteq> 0 \<and> eos \<noteq> e ! (offset + i)")
      case c: True
      from "1.IH" [OF True inb c "1.prems"(1)] True
      have "readASCII_loop e offset maxlen eos (i + 1) (acc @ [fromLatin1 (e ! (offset + i))])
        = Some ((acc @ [fromLatin1 (e ! (offset + i))]) @ map fromLatin1
            (takeWhile (\<lambda>c. c \<noteq> 0 \<and> c \<noteq> eos) (take (maxlen - (i + 1)) (drop (offset + (i + 1)) e))))"
        by simp
      with True inb c show ?thesis
        by (subst readASCII_loop.simps) (auto simp add: d)
    next
      case False
      with True inb show ?thesis
        by (subst readASCII_loop.simps) (auto simp add: d)
    qed
  next
    case False
    then show ?thesis
      by (subst readASCII_loop.simps) simp
  qed
qed

lemma readASCII_eq:
  assumes "offset + maxlen \<le> length e"
  shows "readASCII e offset maxlen eos =
     Some (map fromLatin1 (takeWhile (\<lambda>c. c \<noteq> 0 \<and> c \<noteq> eos) (field_bytes e offset maxlen)))"
  using readASCII_loop_eq [OF assms, of 0 eos "[]"]
  by (simp add: readASCII_def field_bytes_def)

lemma toLatin1_props:
  assumes "c \<noteq> 0" "c \<le> 0xff" "c \<noteq> ucast eos"
  shows "toLatin1 c \<noteq> 0" "toLatin1 c \<noteq> eos" "fromLatin1 (toLatin1 c) = c"
proof -
  have t: "toLatin1 c = ucast c"
    using assms(2) by (auto simp add: toLatin1_def)
  have "c < 2 ^ 8"
    using assms(2) by (simp add: word_less_nat_alt word_le_nat_alt)
  then have m: "c AND mask 8 = c"
    by (rule less_mask_eq)
  have r: "(ucast (ucast c :: u8) :: u16) = c"
  proof -
    have "(ucast (ucast c :: u8) :: u16) = c AND mask 8"
      by (rule bit_word_eqI) (auto simp add: bit_simps)
    with m show ?thesis by simp
  qed
  show "fromLatin1 (toLatin1 c) = c"
    by (simp add: fromLatin1_def t r)
  show "toLatin1 c \<noteq> 0"
    using r assms(1) unfolding t by (metis ucast_0)
  show "toLatin1 c \<noteq> eos"
    using r assms(3) unfolding t by metis
qed

lemma takeWhile_written:
  assumes "\<forall>c \<in> set xs. c \<noteq> 0 \<and> c \<le> 0xff \<and> c \<noteq> ucast eos"
  shows "map fromLatin1 (takeWhile (\<lambda>c. c \<noteq> 0 \<and> c \<noteq> eos) (map toLatin1 xs @ replicate n eos)) = xs"
  using assms
proof (induction xs)
  case Nil
  show ?case by (cases n) simp_all
next
  case (Cons x xs)
  then show ?case
    using toLatin1_props [of x eos] by simp
qed

text \<open>
  Claim C7, as amended: \<open>writeASCII\<close> stores the Latin-1 bytes of the first \<open>maxlen\<close>
  characters of \<open>s\<close> and fills the rest of the field with the terminator; \<open>readASCII\<close>
  returns the bytes of the field up to the first null byte, the first terminator or
  \<open>maxlen\<close> bytes; and reading after writing returns \<open>s\<close>, cut to \<open>maxlen\<close> characters,
  when these characters are Latin-1 characters other than null and the terminator.
\<close>

theorem writeASCII_readASCII:
  assumes "offset + maxlen \<le> length e"
  shows "(\<exists>e'. writeASCII e offset s maxlen eos = Some e' \<and>
           field_bytes e' offset maxlen
             = map toLatin1 (take maxlen s) @ replicate (maxlen - length s) eos \<and>
           ((\<forall>c \<in> set (take maxlen s). c \<noteq> 0 \<and> c \<le> 0xff \<and> c \<noteq> ucast eos) \<longrightarrow>
              readASCII e' offset maxlen eos = Some (take maxlen s) \<and>
              (length s \<le> maxlen \<longrightarrow> readASCII e' offset maxlen eos = Some s))) \<and>
         readASCII e offset maxlen eos =
           Some (map fromLatin1
             (takeWhile (\<lambda>c. c \<noteq> 0 \<and> c \<noteq> eos) (field_bytes e offset maxlen)))"
proof -
  from writeASCII_field [OF assms, of s eos]
  obtain e' where w: "writeASCII e offset s maxlen eos = Some e'"
    and len: "length e' = length e"
    and f: "field_bytes e' offset maxlen
             = map toLatin1 (take maxlen s) @ replicate (maxlen - length s) eos"
    by blast
  have r: "readASCII e' offset maxlen eos = Some (take maxlen s)"
    if "\<forall>c \<in> set (take maxlen s). c \<noteq> 0 \<and> c \<le> 0xff \<and> c \<noteq> ucast eos"
    using assms len by (simp add: readASCII_eq f takeWhile_written [OF that])
  from w f r readASCII_eq [OF assms, of eos] show ?thesis
    by auto
qed

theorem writeASCII_readASCII_witness:
  "(1::nat) + 4 \<le> length [9, 9, 9, 9, 9, 9 :: u8] \<and>
   (\<exists>e'. writeASCII [9, 9, 9, 9, 9, 9] 1 [0x41, 0x42] 4 0xff = Some e' \<and>
         field_bytes e' 1 4 = [0x41, 0x42, 0xff, 0xff] \<and>
         readASCII e' 1 4 0xff = Some [0x41, 0x42]) \<and>
   (\<exists>e'. writeASCII [9, 9, 9, 9, 9, 9] 1 [0x41, 0x42, 0x43, 0x44, 0x45] 4 0xff = Some e' \<and>
         field_bytes e' 1 4 = [0x41, 0x42, 0x43, 0x44] \<and>
         readASCII e' 1 4 0xff = Some [0x41, 0x42, 0x43, 0x44]) \<and>
   readASCII [9, 0x41, 0, 0x42, 9, 9] 1 4 0xff = Some [0x41]"
proof -
  have t: "toLatin1 0x41 = 0x41" "toLatin1 0x42 = 0x42" "toLatin1 0x43 = 0x43"
    "toLatin1 0x44 = 0x44" "fromLatin1 0x41 = 0x41"
    by (simp_all add: toLatin1_def fromLatin1_def)
  have f: "field_bytes [9, 0x41, 0, 0x42, 9, 9] (Suc 0) 4 = [0x41, 0, 0x42, 9]"
    by (simp add: field_bytes_def)
  have p: "replicate 2 (0xff :: u8) = [0xff, 0xff]"
    by (simp add: numeral_2_eq_2)
  have l: "(1::nat) + 4 \<le> length [9, 9, 9, 9, 9, 9 :: u8]"
    "(1::nat) + 4 \<le> length [9, 0x41, 0, 0x42, 9, 9 :: u8]"
    by simp_all
  show ?thesis
    using writeASCII_readASCII [OF l(1), of "[0x41, 0x42]" "0xff"]
      writeASCII_readASCII [OF l(1), of "[0x41, 0x42, 0x43, 0x44, 0x45]" "0xff"]
      writeASCII_readASCII [OF l(2), of "[]" "0xff"]
    by (simp add: t f p)
qed

text \<open>
  Claim C7 as stated, for every string, fails for a string that holds the terminator:
  with the terminator \<open>0x20\<close>, writing \<open>"A B"\<close> into a field of three bytes and reading the
  field gives \<open>"A"\<close>.
\<close>

theorem writeASCII_readASCII_counterexample:
  "length [0x41, 0x20, 0x42 :: QChar] \<le> 3 \<and>
   writeASCII [0, 0, 0] 0 [0x41, 0x20, 0x42] 3 0x20 = Some [0x41, 0x20, 0x42] \<and>
   readASCII [0x41, 0x20, 0x42] 0 3 0x20 = Some [0x41] \<and>
   [0x41 :: QChar] \<noteq> [0x41, 0x20, 0x42]"
  by (simp add: writeASCII_def readASCII_def writeASCII_loop.simps readASCII_loop.simps
      toLatin1_def fromLatin1_def)

subsection \<open>Fixed-length Unicode strings\<close>

text \<open>
  Claim C8 says that \<open>readUnicode\<close> stops at the first null code unit, as \<open>readASCII\<close>
  stops at the first null byte. The loop of \<open>readUnicode\<close> tests the terminator only: with
  the terminator \<open>0xffff\<close> it reads the three code units \<open>0x4141\<close>, \<open>0x0000\<close>, \<open>0x4242\<close>
  (the same bytes on a host of either byte order) to the end of the field.
\<close>

theorem readUnicode_reads_past_null:
  "readUnicode LittleEndian [0x41, 0x41, 0, 0, 0x42, 0x42] 0 3 0xffff = Some [0x4141, 0, 0x4242] \<and>
   readUnicode BigEndian [0x41, 0x41, 0, 0, 0x42, 0x42] 0 3 0xffff = Some [0x4141, 0, 0x4242]"
  by (simp add: readUnicode_def readUnicode_loop.simps load16_def)

subsection \<open>Type resolution of the context\<close>

lemma hasTable_iff:
  "hasTable ctx m \<longleftrightarrow> (\<exists>a \<in> set (hierarchy m). registered ctx a)"
  by (induction ctx m rule: hasTable.induct)
    (auto simp add: QHash_contains_def registered_def split: option.splits)

lemma hasTable_getTable: "hasTable ctx m \<longleftrightarrow> getTable ctx m \<noteq> None"
  by (induction ctx m rule: getTable.induct) (auto split: option.splits)

lemma getTable_stored: "getTable ctx m = Some (k, t) \<Longrightarrow> tables ctx k = Some t"
  by (induction ctx m rule: getTable.induct)
    (auto simp add: QHash_contains_def split: option.splits if_splits)

lemma hierarchy_head: "hierarchy m = m # tl (hierarchy m)"
  by (cases m) simp

lemma hierarchy_eq: "hierarchy a = hierarchy b \<Longrightarrow> a = b"
  using hierarchy_head [of a] hierarchy_head [of b] by (metis list.inject)

lemma getTable_resolves:
  assumes "resolves_to ctx ty cat"
  shows "getTable ctx ty = Some (className cat, the (tables ctx (className cat)))"
proof -
  from assms obtain pre where pre: "hierarchy ty = pre @ hierarchy cat"
      "\<forall>m \<in> set pre. \<not> registered ctx m" and cat: "registered ctx cat"
    unfolding resolves_to_def by blast
  from pre show ?thesis
  proof (induction pre arbitrary: ty)
    case Nil
    then have "ty = cat" by (simp add: hierarchy_eq)
    with cat show ?case
      by (cases cat) (simp add: registered_def QHash_contains_def)
  next
    case (Cons p ps)
    obtain name super where ty: "ty = QMetaObject name super"
      by (cases ty)
    with Cons.prems(1) have p: "p = ty"
      and rest: "(case super of None \<Rightarrow> [] | Some s \<Rightarrow> hierarchy s) = ps @ hierarchy cat"
      by simp_all
    have "ps @ hierarchy cat \<noteq> []"
      using hierarchy_head [of cat] by (metis Nil_is_append_conv list.distinct(1))
    with rest obtain s where s: "super = Some s" "hierarchy s = ps @ hierarchy cat"
      by (cases super) simp_all
    from Cons.prems(2) p ty have "\<not> QHash_contains (tables ctx) name"
      by (simp add: registered_def QHash_contains_def)
    moreover from Cons.IH [OF s(2)] Cons.prems(2)
    have "getTable ctx s = Some (className cat, the (tables ctx (className cat)))"
      by simp
    ultimately show ?case
      using ty s(1) by simp
  qed
qed

lemma getTable_resolved:
  assumes "getTable ctx ty = Some (k, t)"
  shows "\<exists>cat. resolves_to ctx ty cat \<and> k = className cat"
  using assms
proof (induction ctx ty rule: getTable.induct)
  case (1 ctx name super)
  show ?case
  proof (cases "QHash_contains (tables ctx) name")
    case True
    then have "resolves_to ctx (QMetaObject name super) (QMetaObject name super)"
      unfolding resolves_to_def registered_def QHash_contains_def
      by (intro exI [of _ "[]"]) simp
    moreover from True "1.prems" have "k = name" by simp
    ultimately show ?thesis by fastforce
  next
    case False
    with "1.prems" obtain s where s: "super = Some s" "getTable ctx s = Some (k, t)"
      by (cases super) simp_all
    from "1.IH" [OF False s] obtain cat where cat: "resolves_to ctx s cat" "k = className cat"
      by blast
    then obtain pre where pre: "hierarchy s = pre @ hierarchy cat"
      "\<forall>m \<in> set pre. \<not> registered ctx m" "registered ctx cat"
      unfolding resolves_to_def by blast
    have "resolves_to ctx (QMetaObject name super) cat"
      unfolding resolves_to_def
      using pre False s(1)
      by (intro exI [of _ "QMetaObject name super # pre"])
        (simp add: registered_def QHash_contains_def)
    with cat(2) show ?thesis by blast
  qed
qed

lemma not_hasTable_add: "\<not> hasTable ctx (metaObject ob) \<Longrightarrow> Context_add ctx ob idx = Some (False, ctx)"
  by (simp add: Context_add_def)

lemma Table_updates:
  "t\<lparr>objects := a, indices := b\<rparr> = \<lparr>objects = a, indices = b\<rparr>"
  by (cases t) simp

lemma getTable_add:
  assumes "getTable ctx (metaObject ob) = Some (k, t)"
  shows "Context_add ctx ob idx =
     (if indices t ob \<noteq> None \<or> objects t idx \<noteq> None then Some (False, ctx)
      else Some (True, ctx\<lparr>tables := (tables ctx)(k \<mapsto>
             \<lparr>objects = (objects t)(idx \<mapsto> ob), indices = (indices t)(ob \<mapsto> idx)\<rparr>)\<rparr>))"
proof -
  from assms have "hasTable ctx (metaObject ob)"
    by (simp add: hasTable_getTable)
  with assms show ?thesis
    by (auto simp add: Context_add_def QHash_contains_def QHash_insert_def Table_updates)
qed

text \<open>
  Claim C1: \<open>add\<close> returns false and leaves the context as it is when no table exists for
  the type of the object or any of its ancestors, when the index is occupied in the
  resolved table, or when the object is registered in that table; otherwise it returns
  true, and the resolved table holds the pair in both of its maps, all else unchanged.
  One of the cases always applies: \<open>add\<close> always returns.
\<close>

theorem Context_add_result:
  "((\<forall>a \<in> set (hierarchy (metaObject ob)). \<not> registered ctx a) \<longrightarrow>
      Context_add ctx ob idx = Some (False, ctx)) \<and>
   (\<forall>k t. getTable ctx (metaObject ob) = Some (k, t) \<longrightarrow>
      (objects t idx \<noteq> None \<or> indices t ob \<noteq> None \<longrightarrow>
         Context_add ctx ob idx = Some (False, ctx)) \<and>
      (objects t idx = None \<and> indices t ob = None \<longrightarrow>
         Context_add ctx ob idx =
           Some (True, ctx\<lparr>tables := (tables ctx)(k \<mapsto>
             \<lparr>objects = (objects t)(idx \<mapsto> ob), indices = (indices t)(ob \<mapsto> idx)\<rparr>)\<rparr>))) \<and>
   ((\<exists>a \<in> set (hierarchy (metaObject ob)). registered ctx a) \<longrightarrow>
      (\<exists>cat. resolves_to ctx (metaObject ob) cat \<and>
         getTable ctx (metaObject ob) = Some (className cat, the (tables ctx (className cat)))))"
proof (intro conjI impI allI)
  assume "\<forall>a \<in> set (hierarchy (metaObject ob)). \<not> registered ctx a"
  then have "\<not> hasTable ctx (metaObject ob)"
    by (simp add: hasTable_iff)
  then show "Context_add ctx ob idx = Some (False, ctx)"
    by (rule not_hasTable_add)
next
  fix k t
  assume g: "getTable ctx (metaObject ob) = Some (k, t)"
  {
    assume "objects t idx \<noteq> None \<or> indices t ob \<noteq> None"
    then show "Context_add ctx ob idx = Some (False, ctx)"
      using getTable_add [OF g, of idx] by auto
  }
  {
    assume "objects t idx = None \<and> indices t ob = None"
    then show "Context_add ctx ob idx =
           Some (True, ctx\<lparr>tables := (tables ctx)(k \<mapsto>
             \<lparr>objects = (objects t)(idx \<mapsto> ob), indices = (indices t)(ob \<mapsto> idx)\<rparr>)\<rparr>)"
      using getTable_add [OF g, of idx] by simp
  }
next
  assume "\<exists>a \<in> set (hierarchy (metaObject ob)). registered ctx a"
  then have "getTable ctx (metaObject ob) \<noteq> None"
    by (simp add: hasTable_iff [symmetric] hasTable_getTable)
  then obtain k t where g: "getTable ctx (metaObject ob) = Some (k, t)"
    by (cases "getTable ctx (metaObject ob)") auto
  from getTable_resolved [OF g] obtain cat where "resolves_to ctx (metaObject ob) cat"
    by blast
  then show "\<exists>cat. resolves_to ctx (metaObject ob) cat \<and>
         getTable ctx (metaObject ob) = Some (className cat, the (tables ctx (className cat)))"
    using getTable_resolves by blast
qed

lemma Context_init_example:
  "Context_init example_meta =
     \<lparr>tables = [''RadioID'' \<mapsto> \<lparr>objects = Map.empty, indices = Map.empty\<rparr>,
                ''DigitalContact'' \<mapsto> \<lparr>objects = Map.empty, indices = Map.empty\<rparr>,
                ''DTMFContact'' \<mapsto> \<lparr>objects = Map.empty, indices = Map.empty\<rparr>,
                ''RXGroupList'' \<mapsto> \<lparr>objects = Map.empty, indices = Map.empty\<rparr>,
                ''Channel'' \<mapsto> \<lparr>objects = Map.empty, indices = Map.empty\<rparr>,
                ''Zone'' \<mapsto> \<lparr>objects = Map.empty, indices = Map.empty\<rparr>,
                ''ScanList'' \<mapsto> \<lparr>objects = Map.empty, indices = Map.empty\<rparr>,
                ''GPSSystem'' \<mapsto> \<lparr>objects = Map.empty, indices = Map.empty\<rparr>,
                ''APRSSystem'' \<mapsto> \<lparr>objects = Map.empty, indices = Map.empty\<rparr>,
                ''RoamingZone'' \<mapsto> \<lparr>objects = Map.empty, indices = Map.empty\<rparr>]\<rparr>"
  by (simp add: Context_init_def addTable_def example_meta_def ConfigObject_meta_def
      QObject_meta_def QHash_contains_def QHash_insert_def)

lemma example_getTable:
  "getTable (Context_init example_meta) DigitalChannel_meta
     = Some (''Channel'', \<lparr>objects = Map.empty, indices = Map.empty\<rparr>)"
  "getTable (Context_init example_meta) AnalogChannel_meta
     = Some (''Channel'', \<lparr>objects = Map.empty, indices = Map.empty\<rparr>)"
  "getTable (example_registered ob idx) DigitalChannel_meta
     = Some (''Channel'', \<lparr>objects = [idx \<mapsto> ob], indices = [ob \<mapsto> idx]\<rparr>)"
  "getTable (example_registered ob idx) AnalogChannel_meta
     = Some (''Channel'', \<lparr>objects = [idx \<mapsto> ob], indices = [ob \<mapsto> idx]\<rparr>)"
  by (simp_all add: example_registered_def Context_init_example DigitalChannel_meta_def
      AnalogChannel_meta_def example_meta_def QHash_contains_def)

lemma example_unregistered:
  "\<forall>a \<in> set (hierarchy QObject_meta). \<not> registered (Context_init example_meta) a"
  by (simp add: QObject_meta_def registered_def Context_init_example)

theorem Context_add_result_witness:
  "Context_add (Context_init example_meta) (ConfigObject 7 QObject_meta) 5
     = Some (False, Context_init example_meta) \<and>
   Context_add (Context_init example_meta) (ConfigObject 1 DigitalChannel_meta) 5
     = Some (True, example_registered (ConfigObject 1 DigitalChannel_meta) 5) \<and>
   Context_add (example_registered (ConfigObject 1 DigitalChannel_meta) 5)
       (ConfigObject 2 AnalogChannel_meta) 5
     = Some (False, example_registered (ConfigObject 1 DigitalChannel_meta) 5) \<and>
   Context_add (example_registered (ConfigObject 1 DigitalChannel_meta) 5)
       (ConfigObject 1 DigitalChannel_meta) 6
     = Some (False, example_registered (ConfigObject 1 DigitalChannel_meta) 5)"
proof -
  let ?c0 = "Context_init example_meta"
  let ?a = "ConfigObject 1 DigitalChannel_meta"
  let ?b = "ConfigObject 2 AnalogChannel_meta"
  have 1: "Context_add ?c0 (ConfigObject 7 QObject_meta) 5 = Some (False, ?c0)"
    using Context_add_result [of "ConfigObject 7 QObject_meta" ?c0 5] example_unregistered
    by simp
  have 2: "Context_add ?c0 ?a 5 = Some (True, example_registered ?a 5)"
    using Context_add_result [of ?a ?c0 5]
    by (simp add: example_getTable example_registered_def)
  have 3: "Context_add (example_registered ?a 5) ?b 5 = Some (False, example_registered ?a 5)"
    using Context_add_result [of ?b "example_registered ?a 5" 5]
    by (simp add: example_getTable)
  have 4: "Context_add (example_registered ?a 5) ?a 6 = Some (False, example_registered ?a 5)"
    using Context_add_result [of ?a "example_registered ?a 5" 6]
    by (simp add: example_getTable)
  from 1 2 3 4 show ?thesis by simp
qed

subsection \<open>Looking up objects and indices\<close>

lemma sint_small:
  fixes i :: u32
  assumes "i < 2 ^ 31"
  shows "sint i = uint i"
proof -
  have u: "uint i < 2 ^ 31"
    using assms by (simp add: word_less_def)
  have "- (2 ^ 31 :: int) \<le> 0" by simp
  also have "0 \<le> uint i" by simp
  finally have "signed_take_bit 31 (uint i) = uint i"
    using u by (rule signed_take_bit_int_eq_self)
  then show ?thesis
    by (simp add: sint_uint)
qed

text \<open>
  Claim C9, as amended: \<open>obj\<close> returns the null pointer when no class of the hierarchy of
  the type is registered or the index is not occupied in the resolved table, and the
  object at the index otherwise. \<open>index\<close> returns \<open>-1\<close> when no class of the hierarchy is
  registered or the object is not registered in the resolved table, and otherwise the
  index of the object converted to a signed 32-bit value, which is the index itself when
  it is below \<open>2 ^ 31\<close>. Both always return.
\<close>

theorem Context_obj_index_result:
  "((\<forall>a \<in> set (hierarchy ty). \<not> registered ctx a) \<longrightarrow> Context_obj ctx ty idx = Some None) \<and>
   (\<forall>k t. getTable ctx ty = Some (k, t) \<longrightarrow> Context_obj ctx ty idx = Some (objects t idx)) \<and>
   ((\<forall>a \<in> set (hierarchy (metaObject ob)). \<not> registered ctx a) \<longrightarrow>
      Context_index ctx ob = Some (- 1)) \<and>
   (\<forall>k t. getTable ctx (metaObject ob) = Some (k, t) \<longrightarrow>
      (indices t ob = None \<longrightarrow> Context_index ctx ob = Some (- 1)) \<and>
      (\<forall>i. indices t ob = Some i \<longrightarrow>
         Context_index ctx ob = Some (sint i) \<and>
         (i < 2 ^ 31 \<longrightarrow> Context_index ctx ob = Some (uint i)))) \<and>
   Context_obj ctx ty idx \<noteq> None \<and> Context_index ctx ob \<noteq> None"
proof (intro conjI impI allI)
  assume "\<forall>a \<in> set (hierarchy ty). \<not> registered ctx a"
  then show "Context_obj ctx ty idx = Some None"
    by (simp add: Context_obj_def hasTable_iff)
next
  fix k t assume "getTable ctx ty = Some (k, t)"
  then show "Context_obj ctx ty idx = Some (objects t idx)"
    by (simp add: Context_obj_def hasTable_getTable split: option.splits)
next
  assume "\<forall>a \<in> set (hierarchy (metaObject ob)). \<not> registered ctx a"
  then show "Context_index ctx ob = Some (- 1)"
    by (simp add: Context_index_def hasTable_iff)
next
  fix k t assume g: "getTable ctx (metaObject ob) = Some (k, t)"
  {
    assume "indices t ob = None"
    with g show "Context_index ctx ob = Some (- 1)"
      by (simp add: Context_index_def hasTable_getTable QHash_value_def)
  }
  fix i assume i: "indices t ob = Some i"
  with g show s: "Context_index ctx ob = Some (sint i)"
    by (simp add: Context_index_def hasTable_getTable QHash_value_def)
  {
    assume "i < 2 ^ 31"
    with s show "Context_index ctx ob = Some (uint i)"
      by (simp add: sint_small)
  }
next
  show "Context_obj ctx ty idx \<noteq> None"
    by (auto simp add: Context_obj_def hasTable_getTable split: option.splits)
  show "Context_index ctx ob \<noteq> None"
    by (auto simp add: Context_index_def hasTable_getTable split: option.splits)
qed

theorem Context_obj_index_result_witness:
  "Context_obj (Context_init example_meta) QObject_meta 5 = Some None \<and>
   Context_obj (example_registered (ConfigObject 1 DigitalChannel_meta) 5) AnalogChannel_meta 5
     = Some (Some (ConfigObject 1 DigitalChannel_meta)) \<and>
   Context_obj (example_registered (ConfigObject 1 DigitalChannel_meta) 5) AnalogChannel_meta 6
     = Some None \<and>
   Context_index (Context_init example_meta) (ConfigObject 7 QObject_meta) = Some (- 1) \<and>
   Context_index (example_registered (ConfigObject 1 DigitalChannel_meta) 5)
       (ConfigObject 2 AnalogChannel_meta) = Some (- 1) \<and>
   Context_index (example_registered (ConfigObject 1 DigitalChannel_meta) 5)
       (ConfigObject 1 DigitalChannel_meta) = Some 5"
proof -
  let ?c0 = "Context_init example_meta"
  let ?a = "ConfigObject 1 DigitalChannel_meta"
  let ?b = "ConfigObject 2 AnalogChannel_meta"
  let ?q = "ConfigObject 7 QObject_meta"
  have 1: "Context_obj ?c0 QObject_meta 5 = Some None \<and> Context_index ?c0 ?q = Some (- 1)"
    using Context_obj_index_result [of QObject_meta ?c0 5 ?q] example_unregistered
    by simp
  have 2: "Context_obj (example_registered ?a 5) AnalogChannel_meta 5 = Some (Some ?a) \<and>
      Context_index (example_registered ?a 5) ?b = Some (- 1)"
    using Context_obj_index_result [of AnalogChannel_meta "example_registered ?a 5" 5 ?b]
    by (simp add: example_getTable)
  have 3: "Context_obj (example_registered ?a 5) AnalogChannel_meta 6 = Some None \<and>
      Context_index (example_registered ?a 5) ?a = Some 5"
    using Context_obj_index_result [of AnalogChannel_meta "example_registered ?a 5" 6 ?a]
    by (simp add: example_getTable)
  from 1 2 3 show ?thesis by simp
qed

text \<open>
  Claim C9 as stated fails for an index from \<open>2 ^ 31\<close> on, which \<open>add\<close> accepts as a
  \<open>uint\<close>: an object registered at the index \<open>0xffffffff\<close> has the index \<open>-1\<close>, the value
  that stands for an object that is not registered.
\<close>

theorem Context_index_counterexample:
  "Context_add (Context_init example_meta) (ConfigObject 1 DigitalChannel_meta) 0xffffffff
     = Some (True, example_registered (ConfigObject 1 DigitalChannel_meta) 0xffffffff) \<and>
   Context_index (example_registered (ConfigObject 1 DigitalChannel_meta) 0xffffffff)
       (ConfigObject 1 DigitalChannel_meta) = Some (- 1) \<and>
   uint (0xffffffff :: u32) = 4294967295"
proof -
  let ?a = "ConfigObject 1 DigitalChannel_meta"
  have "getTable (Context_init example_meta) (metaObject ?a)
      = Some (''Channel'', \<lparr>objects = Map.empty, indices = Map.empty\<rparr>)"
    by (simp add: example_getTable)
  then have "Context_add (Context_init example_meta) ?a 0xffffffff
      = Some (True, example_registered ?a 0xffffffff)"
    by (simp add: getTable_add example_registered_def)
  moreover have "Context_index (example_registered ?a 0xffffffff) ?a = Some (- 1)"
    by (simp add: Context_index_def hasTable_getTable example_getTable QHash_value_def)
  ultimately show ?thesis by simp
qed

subsection \<open>The invariant of the slot tables\<close>

lemma mutual_inverses_empty: "mutual_inverses \<lparr>objects = Map.empty, indices = Map.empty\<rparr>"
  by (simp add: mutual_inverses_def)

lemma mutual_inverses_insert:
  assumes "mutual_inverses t" "objects t idx = None" "indices t ob = None"
  shows "mutual_inverses \<lparr>objects = (objects t)(idx \<mapsto> ob), indices = (indices t)(ob \<mapsto> idx)\<rparr>"
  unfolding mutual_inverses_def
proof (intro allI)
  fix i o'
  from assms(1) have inv: "objects t i = Some o' \<longleftrightarrow> indices t o' = Some i" for i o'
    by (simp add: mutual_inverses_def)
  from inv [of idx] assms(2) have a: "indices t o' \<noteq> Some idx" for o'
    by simp
  from inv [of _ ob] assms(3) have b: "objects t i \<noteq> Some ob" for i
    by simp
  show "objects \<lparr>objects = (objects t)(idx \<mapsto> ob), indices = (indices t)(ob \<mapsto> idx)\<rparr> i = Some o'
      \<longleftrightarrow> indices \<lparr>objects = (objects t)(idx \<mapsto> ob), indices = (indices t)(ob \<mapsto> idx)\<rparr> o' = Some i"
    using a [of o'] b [of i] inv [of i o'] by auto
qed

lemma mutual_inverses_at_most_once: "mutual_inverses t \<Longrightarrow> at_most_once t"
  unfolding mutual_inverses_def at_most_once_def
  by (metis option.inject)

lemma addTable_inverses:
  assumes "\<forall>k t. tables ctx k = Some t \<longrightarrow> mutual_inverses t"
  shows "\<forall>k t. tables (snd (addTable ctx m)) k = Some t \<longrightarrow> mutual_inverses t"
  using assms by (auto simp add: addTable_def QHash_insert_def mutual_inverses_empty)

lemma foldl_addTable_inverses:
  assumes "\<forall>k t. tables ctx k = Some t \<longrightarrow> mutual_inverses t"
  shows "\<forall>k t. tables (foldl (\<lambda>ctx c. snd (addTable ctx (f c))) ctx cs) k = Some t
           \<longrightarrow> mutual_inverses t"
  using assms
proof (induction cs arbitrary: ctx)
  case Nil
  then show ?case by simp
next
  case (Cons c cs)
  from addTable_inverses [OF Cons.prems, of "f c"]
  have "\<forall>k t. tables (snd (addTable ctx (f c))) k = Some t \<longrightarrow> mutual_inverses t" .
  from Cons.IH [OF this] show ?case by simp
qed

lemma Context_init_inverses:
  "\<forall>k t. tables (Context_init f) k = Some t \<longrightarrow> mutual_inverses t"
  unfolding Context_init_def by (rule foldl_addTable_inverses) simp

lemma Context_add_inverses:
  assumes "\<forall>k t. tables ctx k = Some t \<longrightarrow> mutual_inverses t"
    and "Context_add ctx ob idx = Some (r, ctx')"
  shows "\<forall>k t. tables ctx' k = Some t \<longrightarrow> mutual_inverses t"
proof (cases "getTable ctx (metaObject ob)")
  case None
  then have "\<not> hasTable ctx (metaObject ob)"
    by (simp add: hasTable_getTable)
  with assms show ?thesis
    by (simp add: not_hasTable_add)
next
  case (Some kt)
  then obtain k0 t0 where g: "getTable ctx (metaObject ob) = Some (k0, t0)"
    by (cases kt) simp
  from getTable_stored [OF g] assms(1) have t0: "mutual_inverses t0"
    by blast
  show ?thesis
  proof (cases "indices t0 ob \<noteq> None \<or> objects t0 idx \<noteq> None")
    case True
    with assms getTable_add [OF g, of idx] show ?thesis
      by simp
  next
    case False
    then have free: "objects t0 idx = None" "indices t0 ob = None"
      by simp_all
    from False assms(2) getTable_add [OF g, of idx]
    have "ctx' = ctx\<lparr>tables := (tables ctx)(k0 \<mapsto>
             \<lparr>objects = (objects t0)(idx \<mapsto> ob), indices = (indices t0)(ob \<mapsto> idx)\<rparr>)\<rparr>"
      by simp
    with assms(1) mutual_inverses_insert [OF t0 free] show ?thesis
      by simp
  qed
qed

lemma Context_add_total: "Context_add ctx ob idx \<noteq> None"
  by (auto simp add: Context_add_def hasTable_getTable split: option.splits)

lemma reachable_inverses:
  "reachable f ctx \<Longrightarrow> \<forall>k t. tables ctx k = Some t \<longrightarrow> mutual_inverses t"
proof (induction rule: reachable.induct)
  case fresh
  show ?case by (rule Context_init_inverses)
next
  case (after_addTable ctx m r ctx')
  from addTable_inverses [OF after_addTable.IH, of m] after_addTable.hyps(2)
  show ?case by simp
next
  case (after_add ctx ob idx r ctx')
  from after_add.IH after_add.hyps(2) show ?case
    by (rule Context_add_inverses)
qed

lemma example_add:
  "Context_add (Context_init example_meta) (ConfigObject n DigitalChannel_meta) idx
     = Some (True, example_registered (ConfigObject n DigitalChannel_meta) idx)"
proof -
  have "getTable (Context_init example_meta) (metaObject (ConfigObject n DigitalChannel_meta))
      = Some (''Channel'', \<lparr>objects = Map.empty, indices = Map.empty\<rparr>)"
    by (simp add: example_getTable)
  then show ?thesis
    by (simp add: getTable_add example_registered_def)
qed

text \<open>
  Claim C2: in every context reached from a freshly constructed one by \<open>addTable\<close> and
  \<open>add\<close>, the two maps of every slot table are mutual inverses, and no object occurs under
  two indices and no index under two objects. (\<open>addTable\<close> and \<open>add\<close> always return.)
\<close>

theorem reachable_tables_mutual_inverses:
  assumes "reachable staticMetaObject ctx" and "tables ctx k = Some t"
  shows "mutual_inverses t \<and> at_most_once t"
  using reachable_inverses [OF assms(1)] assms(2) mutual_inverses_at_most_once by blast

theorem reachable_tables_mutual_inverses_witness:
  "reachable example_meta (example_registered (ConfigObject 1 DigitalChannel_meta) 5) \<and>
   tables (example_registered (ConfigObject 1 DigitalChannel_meta) 5) ''Channel''
     = Some \<lparr>objects = [5 \<mapsto> ConfigObject 1 DigitalChannel_meta],
             indices = [ConfigObject 1 DigitalChannel_meta \<mapsto> 5]\<rparr> \<and>
   mutual_inverses \<lparr>objects = [5 \<mapsto> ConfigObject 1 DigitalChannel_meta],
                    indices = [ConfigObject 1 DigitalChannel_meta \<mapsto> 5]\<rparr> \<and>
   at_most_once \<lparr>objects = [5 \<mapsto> ConfigObject 1 DigitalChannel_meta],
                 indices = [ConfigObject 1 DigitalChannel_meta \<mapsto> 5]\<rparr>"
proof -
  let ?c = "example_registered (ConfigObject 1 DigitalChannel_meta) 5"
  let ?t = "\<lparr>objects = [5 \<mapsto> ConfigObject 1 DigitalChannel_meta],
             indices = [ConfigObject 1 DigitalChannel_meta \<mapsto> 5]\<rparr>"
  have r: "reachable example_meta ?c"
    using reachable.fresh [of example_meta] example_add [of 1 5]
    by (rule reachable.after_add)
  have t: "tables ?c ''Channel'' = Some ?t"
    by (simp add: example_registered_def)
  from reachable_tables_mutual_inverses [OF r t] r t show ?thesis
    by simp
qed

subsection \<open>Subtypes share the table of their category\<close>

lemma direct_subtype_resolves:
  assumes "superClass ty = Some cat" "\<not> registered ctx ty" "registered ctx cat"
  shows "resolves_to ctx ty cat"
proof -
  from assms(1) have "hierarchy ty = [ty] @ hierarchy cat"
    by (cases ty) simp
  with assms(2,3) show ?thesis
    unfolding resolves_to_def by (intro exI [of _ "[ty]"]) simp
qed

lemma resolves_to_after_add:
  assumes "resolves_to ctx ty cat" "tables ctx k \<noteq> None"
  shows "resolves_to (ctx\<lparr>tables := (tables ctx)(k \<mapsto> t)\<rparr>) ty cat"
proof -
  have "registered (ctx\<lparr>tables := (tables ctx)(k \<mapsto> t)\<rparr>) m \<longleftrightarrow> registered ctx m" for m
    using assms(2) by (auto simp add: registered_def)
  with assms(1) show ?thesis
    by (simp add: resolves_to_def)
qed

text \<open>
  Claim C3: two objects \<open>a\<close> and \<open>b\<close> whose types resolve to the same registered category
  \<open>cat\<close> (walking up from the most derived class, no class below \<open>cat\<close> is registered) use
  the one table of \<open>cat\<close>. Once \<open>a\<close> is added at the index \<open>i\<close>, adding \<open>b\<close> at \<open>i\<close> fails and
  leaves the context as it is; adding \<open>b\<close> at a free index \<open>j\<close> succeeds, and whenever it
  succeeds, \<open>j\<close> differs from \<open>i\<close> and the table of \<open>cat\<close> holds both objects.
\<close>

theorem subtypes_share_table:
  assumes "resolves_to ctx (metaObject a) cat" and "resolves_to ctx (metaObject b) cat"
    and "a \<noteq> b"
  shows "\<exists>t. getTable ctx (metaObject a) = Some (className cat, t) \<and>
             getTable ctx (metaObject b) = Some (className cat, t) \<and>
             (\<forall>ctx1. Context_add ctx a i = Some (True, ctx1) \<longrightarrow>
                Context_add ctx1 b i = Some (False, ctx1) \<and>
                (\<forall>j. j \<noteq> i \<and> objects t j = None \<and> indices t b = None \<longrightarrow>
                   (\<exists>ctx2. Context_add ctx1 b j = Some (True, ctx2))) \<and>
                (\<forall>j ctx2. Context_add ctx1 b j = Some (True, ctx2) \<longrightarrow>
                   j \<noteq> i \<and>
                   (\<exists>t2. getTable ctx2 (metaObject a) = Some (className cat, t2) \<and>
                         getTable ctx2 (metaObject b) = Some (className cat, t2) \<and>
                         objects t2 i = Some a \<and> objects t2 j = Some b \<and>
                         indices t2 a = Some i \<and> indices t2 b = Some j)))"
proof -
  let ?k = "className cat"
  let ?t = "the (tables ctx ?k)"
  have ga: "getTable ctx (metaObject a) = Some (?k, ?t)"
    using assms(1) by (rule getTable_resolves)
  have gb: "getTable ctx (metaObject b) = Some (?k, ?t)"
    using assms(2) by (rule getTable_resolves)
  have k: "tables ctx ?k \<noteq> None"
    using assms(1) by (auto simp add: resolves_to_def registered_def)
  have step: "Context_add ctx1 b i = Some (False, ctx1) \<and>
      (\<forall>j. j \<noteq> i \<and> objects ?t j = None \<and> indices ?t b = None \<longrightarrow>
         (\<exists>ctx2. Context_add ctx1 b j = Some (True, ctx2))) \<and>
      (\<forall>j ctx2. Context_add ctx1 b j = Some (True, ctx2) \<longrightarrow>
         j \<noteq> i \<and>
         (\<exists>t2. getTable ctx2 (metaObject a) = Some (?k, t2) \<and>
               getTable ctx2 (metaObject b) = Some (?k, t2) \<and>
               objects t2 i = Some a \<and> objects t2 j = Some b \<and>
               indices t2 a = Some i \<and> indices t2 b = Some j))"
    if add1: "Context_add ctx a i = Some (True, ctx1)" for ctx1
  proof -
    let ?t1 = "\<lparr>objects = (objects ?t)(i \<mapsto> a), indices = (indices ?t)(a \<mapsto> i)\<rparr>"
    from add1 getTable_add [OF ga, of i]
    have free: "indices ?t a = None" "objects ?t i = None"
      and ctx1: "ctx1 = ctx\<lparr>tables := (tables ctx)(?k \<mapsto> ?t1)\<rparr>"
      by (simp_all split: if_splits)
    have ra: "resolves_to ctx1 (metaObject a) cat" and rb: "resolves_to ctx1 (metaObject b) cat"
      unfolding ctx1 using assms(1,2) k by (simp_all add: resolves_to_after_add)
    have t1: "the (tables ctx1 ?k) = ?t1"
      by (simp add: ctx1)
    have gb1: "getTable ctx1 (metaObject b) = Some (?k, ?t1)"
      using getTable_resolves [OF rb] t1 by simp
    have k1: "tables ctx1 ?k \<noteq> None"
      by (simp add: ctx1)
    have "Context_add ctx1 b i = Some (False, ctx1)"
      using getTable_add [OF gb1, of i] by simp
    moreover have "\<exists>ctx2. Context_add ctx1 b j = Some (True, ctx2)"
      if "j \<noteq> i \<and> objects ?t j = None \<and> indices ?t b = None" for j
      using getTable_add [OF gb1, of j] that assms(3) by simp
    moreover have "j \<noteq> i \<and>
         (\<exists>t2. getTable ctx2 (metaObject a) = Some (?k, t2) \<and>
               getTable ctx2 (metaObject b) = Some (?k, t2) \<and>
               objects t2 i = Some a \<and> objects t2 j = Some b \<and>
               indices t2 a = Some i \<and> indices t2 b = Some j)"
      if add2: "Context_add ctx1 b j = Some (True, ctx2)" for j ctx2
    proof -
      let ?t2 = "\<lparr>objects = (objects ?t1)(j \<mapsto> b), indices = (indices ?t1)(b \<mapsto> j)\<rparr>"
      from add2 getTable_add [OF gb1, of j]
      have free2: "indices ?t1 b = None" "objects ?t1 j = None"
        and ctx2: "ctx2 = ctx1\<lparr>tables := (tables ctx1)(?k \<mapsto> ?t2)\<rparr>"
        by (simp_all split: if_splits)
      from free2(2) have ji: "j \<noteq> i"
        by (auto split: if_splits)
      have ra2: "resolves_to ctx2 (metaObject a) cat"
        and rb2: "resolves_to ctx2 (metaObject b) cat"
        unfolding ctx2 using ra rb k1 by (simp_all add: resolves_to_after_add)
      have t2: "the (tables ctx2 ?k) = ?t2"
        by (simp add: ctx2)
      have "getTable ctx2 (metaObject a) = Some (?k, ?t2)"
        "getTable ctx2 (metaObject b) = Some (?k, ?t2)"
        using getTable_resolves [OF ra2] getTable_resolves [OF rb2] t2 by simp_all
      moreover have "objects ?t2 i = Some a" "objects ?t2 j = Some b"
        "indices ?t2 a = Some i" "indices ?t2 b = Some j"
        using ji assms(3) by simp_all
      ultimately show ?thesis
        using ji by blast
    qed
    ultimately show ?thesis by blast
  qed
  from ga gb step show ?thesis by blast
qed

theorem subtypes_share_table_witness:
  "resolves_to (Context_init example_meta) DigitalChannel_meta (example_meta Channel) \<and>
   resolves_to (Context_init example_meta) AnalogChannel_meta (example_meta Channel) \<and>
   ConfigObject 1 DigitalChannel_meta \<noteq> ConfigObject 2 AnalogChannel_meta \<and>
   Context_add (Context_init example_meta) (ConfigObject 1 DigitalChannel_meta) 5
     = Some (True, example_registered (ConfigObject 1 DigitalChannel_meta) 5) \<and>
   Context_add (example_registered (ConfigObject 1 DigitalChannel_meta) 5)
       (ConfigObject 2 AnalogChannel_meta) 5
     = Some (False, example_registered (ConfigObject 1 DigitalChannel_meta) 5) \<and>
   (\<exists>ctx2. Context_add (example_registered (ConfigObject 1 DigitalChannel_meta) 5)
       (ConfigObject 2 AnalogChannel_meta) 6 = Some (True, ctx2))"
proof -
  let ?c0 = "Context_init example_meta"
  let ?a = "ConfigObject 1 DigitalChannel_meta"
  let ?b = "ConfigObject 2 AnalogChannel_meta"
  have reg: "registered ?c0 (example_meta Channel)" "\<not> registered ?c0 DigitalChannel_meta"
    "\<not> registered ?c0 AnalogChannel_meta"
    by (simp_all add: registered_def Context_init_example example_meta_def
        DigitalChannel_meta_def AnalogChannel_meta_def)
  have ra: "resolves_to ?c0 (metaObject ?a) (example_meta Channel)"
    using reg by (intro direct_subtype_resolves) (simp_all add: DigitalChannel_meta_def)
  have rb: "resolves_to ?c0 (metaObject ?b) (example_meta Channel)"
    using reg by (intro direct_subtype_resolves) (simp_all add: AnalogChannel_meta_def)
  have ne: "?a \<noteq> ?b" by simp
  have add1: "Context_add ?c0 ?a 5 = Some (True, example_registered ?a 5)"
    by (rule example_add)
  from subtypes_share_table [OF ra rb ne, of 5] add1 ra rb
  show ?thesis
    by (auto simp add: example_getTable)
qed

end
